theory Spec2Isabelle
  imports Main "HOL-Library.Word" "HOL-Library.Multiset"
begin

section \<open>Function records\<close>

text \<open>
  The C struct \<open>functionInfo_t\<close>.  The fields \<open>uint32_t\<close> are 32-bit words, the array
  \<open>jumpsTo\<close> with its fill level \<open>numJumpsTo\<close> is a list (\<open>numJumpsTo\<close> is its length),
  and the linked list hanging off \<open>firstFunctionInfo\<close> is a HOL list of records; a
  pointer to a list node is the position of the node in that list.  The field \<open>end\<close> is
  called \<open>endAddr\<close> here.
\<close>

record functionInfo =
  name :: string
  start :: "32 word"
  endAddr :: "32 word"
  ownStack :: "32 word"
  deepest :: "32 word"
  jumpsTo :: "32 word list"
  usesFunctionPointers :: bool
  isProcessed :: bool

datatype error =
    StagingOverflow
  | JumpTableOverflow
  | NullDereference
  | BadLength
  | IndeterminateBuffer
  | RecursionBound

text \<open>
  What the source leaves undefined is an \<open>error\<close> in the model: a write behind the
  local array of \<open>cleanupFunctionInfo\<close> (\<open>StagingOverflow\<close>) or behind the memory
  allocated for \<open>jumpsTo\<close> (\<open>JumpTableOverflow\<close>), a read through a null pointer, a
  negative length handed to \<open>malloc\<close> and \<open>memcpy\<close>, and the read of a buffer that
  holds no value yet.  \<open>RecursionBound\<close> stands for a resolution pass that reaches the
  bound on its recursion depth, which does not happen.
\<close>

text \<open>The two hard-coded capacities of the source: the local array of
  \<open>cleanupFunctionInfo\<close> and the allocation made by \<open>createNewFunctionInfo\<close>.\<close>

definition stagingCapacity :: nat where
  "stagingCapacity = 1000"

definition jumpsToCapacity :: nat where
  "jumpsToCapacity = 10000"

section \<open>C strings and the C library\<close>

text \<open>
  A C string is the list of its characters before the terminating NUL.  A pointer into a
  string is the suffix that starts there, a null pointer is \<open>None\<close>.  The library
  functions follow the C standard; \<open>long\<close> is 32 bits wide, as on the platform whose
  \<open>objdump\<close> the program starts.
\<close>

fun strstr :: "string \<Rightarrow> string \<Rightarrow> string option" where
  "strstr [] needle = (if needle = [] then Some [] else None)"
| "strstr (c # cs) needle =
     (if take (length needle) (c # cs) = needle then Some (c # cs) else strstr cs needle)"

fun strchr :: "string \<Rightarrow> char \<Rightarrow> string option" where
  "strchr [] c = None"
| "strchr (x # xs) c = (if x = c then Some (x # xs) else strchr xs c)"

fun strrchr :: "string \<Rightarrow> char \<Rightarrow> string option" where
  "strrchr [] c = None"
| "strrchr (x # xs) c =
     (case strrchr xs c of
        Some r \<Rightarrow> Some r
      | None \<Rightarrow> if x = c then Some (x # xs) else None)"

definition strncmp_eq :: "string \<Rightarrow> string \<Rightarrow> nat \<Rightarrow> bool" where
  "strncmp_eq a b n \<longleftrightarrow> take n a = take n b"

definition isspace :: "char \<Rightarrow> bool" where
  "isspace c \<longleftrightarrow> c \<in> set [CHR '' '', CHR 0x09, CHR 0x0A, CHR 0x0B, CHR 0x0C, CHR 0x0D]"

definition digitValue :: "char \<Rightarrow> nat option" where
  "digitValue c =
     (let k = of_char c :: nat in
      if 48 \<le> k \<and> k \<le> 57 then Some (k - 48)
      else if 97 \<le> k \<and> k \<le> 122 then Some (k - 87)
      else if 65 \<le> k \<and> k \<le> 90 then Some (k - 55)
      else None)"

fun digits :: "nat \<Rightarrow> string \<Rightarrow> nat \<Rightarrow> nat" where
  "digits base [] acc = acc"
| "digits base (c # cs) acc =
     (case digitValue c of
        None \<Rightarrow> acc
      | Some d \<Rightarrow> if d < base then digits base cs (acc * base + d) else acc)"

definition hasDigit :: "nat \<Rightarrow> string \<Rightarrow> bool" where
  "hasDigit base s = (case s of [] \<Rightarrow> False
     | c # cs \<Rightarrow> (case digitValue c of None \<Rightarrow> False | Some d \<Rightarrow> d < base))"

definition skipSign :: "string \<Rightarrow> bool \<times> string" where
  "skipSign s = (case s of
       c # cs \<Rightarrow> if c = CHR ''-'' then (True, cs) else if c = CHR ''+'' then (False, cs) else (False, s)
     | [] \<Rightarrow> (False, s))"

definition skipHexPrefix :: "string \<Rightarrow> string" where
  "skipHexPrefix s = (case s of
       z # x # rest \<Rightarrow>
         if z = CHR ''0'' \<and> (x = CHR ''x'' \<or> x = CHR ''X'') \<and> hasDigit 16 rest then rest else s
     | _ \<Rightarrow> s)"

definition strtoul16 :: "string \<Rightarrow> 32 word" where
  "strtoul16 s =
     (let (neg, s1) = skipSign (dropWhile isspace s);
          v = digits 16 (skipHexPrefix s1) 0;
          r = (if v > 4294967295 then 4294967295 else v)
      in if neg then - of_nat r else of_nat r)"

definition strtol10 :: "string \<Rightarrow> int" where
  "strtol10 s =
     (let (neg, s1) = skipSign (dropWhile isspace s);
          v = int (digits 10 s1 0);
          r = (if neg then - v else v)
      in if r > 2147483647 then 2147483647 else if r < - 2147483648 then - 2147483648 else r)"

definition tab :: string where
  "tab = [CHR 0x09]"

definition nl :: string where
  "nl = [CHR 0x0A]"

section \<open>The disassembly stream\<close>

text \<open>
  The stream that \<open>popen\<close> returns: the characters not yet read and the end-of-file
  indicator.  \<open>fgets\<close> reads up to and including the next newline, at most
  \<open>n - 1\<close> characters; it sets the indicator only when it runs into the end while
  reading, and returns \<open>None\<close> (the buffer stays as it was) when there was nothing left.
\<close>

type_synonym stream = "string \<times> bool"

fun readLine :: "nat \<Rightarrow> string \<Rightarrow> string" where
  "readLine 0 cs = []"
| "readLine (Suc k) [] = []"
| "readLine (Suc k) (c # cs) = (if c = CHR 0x0A then [c] else c # readLine k cs)"

definition fgets :: "nat \<Rightarrow> stream \<Rightarrow> string option \<times> stream" where
  "fgets n s =
     (case s of (cs, eof) \<Rightarrow>
        if cs = [] then (None, ([], True))
        else
          let line = readLine (n - 1) cs; rest = drop (length line) cs
          in (Some line,
              (rest, eof \<or> (rest = [] \<and> last line \<noteq> CHR 0x0A \<and> length line < n - 1))))"

definition feof :: "stream \<Rightarrow> bool" where
  "feof s = snd s"

definition streamSize :: "stream \<Rightarrow> nat" where
  "streamSize s = 2 * length (fst s) + (if snd s then 0 else 1)"

text \<open>\<open>findNextTextSection\<close>: its buffer is local, so only the stream is returned.\<close>

definition expectedString :: string where
  "expectedString = ''Disassembly of section .text''"

function findNextTextSectionLoop :: "string \<Rightarrow> stream \<Rightarrow> stream" where
  "findNextTextSectionLoop inputBuffer disassemblyInput =
     (if \<not> feof disassemblyInput \<and>
         \<not> strncmp_eq inputBuffer expectedString (length expectedString)
      then (case fgets 500 disassemblyInput of
              (None, s') \<Rightarrow> findNextTextSectionLoop inputBuffer s'
            | (Some line, s') \<Rightarrow> findNextTextSectionLoop line s')
      else disassemblyInput)"
  by pat_completeness auto
termination
proof (relation "measure (\<lambda>(b, s). streamSize s)")
  have dec: "streamSize y < streamSize s" if "\<not> feof s" "(x, y) = fgets 500 s" for s x y
  proof -
    obtain cs e where s: "s = (cs, e)" by (cases s)
    from that(1) have e: "\<not> e" by (simp add: s feof_def)
    show ?thesis
    proof (cases cs)
      case Nil
      with that(2) e show ?thesis by (simp add: s fgets_def streamSize_def)
    next
      case (Cons c cs')
      have "readLine 499 cs \<noteq> []" by (simp add: Cons numeral_eq_Suc)
      then have "length (drop (length (readLine 499 cs)) cs) < length cs"
        by (simp add: Cons)
      with that(2) e show ?thesis
        by (auto simp: s fgets_def streamSize_def Let_def Cons)
    qed
  qed
  show "wf (measure (\<lambda>(b, s). streamSize s))" by simp
  show "((inputBuffer, y), inputBuffer, disassemblyInput) \<in> measure (\<lambda>(b, s). streamSize s)"
    if "\<not> feof disassemblyInput \<and>
        \<not> strncmp_eq inputBuffer expectedString (length expectedString)"
      "(x, y) = fgets 500 disassemblyInput" "x = None"
    for inputBuffer disassemblyInput x y
    using dec [of disassemblyInput x y] that by simp
  show "((x2, y), inputBuffer, disassemblyInput) \<in> measure (\<lambda>(b, s). streamSize s)"
    if "\<not> feof disassemblyInput \<and>
        \<not> strncmp_eq inputBuffer expectedString (length expectedString)"
      "(x, y) = fgets 500 disassemblyInput" "x = Some x2"
    for inputBuffer disassemblyInput x y x2
    using dec [of disassemblyInput x y] that by simp
qed

definition findNextTextSection :: "stream \<Rightarrow> stream" where
  "findNextTextSection disassemblyInput =
     (let s1 = (case fgets 500 disassemblyInput of
                  (None, s') \<Rightarrow> s'
                | (Some line, s') \<Rightarrow> findNextTextSectionLoop line s')
      in snd (fgets 500 s1))"

section \<open>Closing a record: \<open>cleanupFunctionInfo\<close>\<close>

text \<open>
  The \<open>for\<close> loop of \<open>cleanupFunctionInfo\<close>: \<open>staged\<close> is the filled part of the
  local array \<open>jumpsTo[1000]\<close>.  A write at index 1000 or beyond leaves the array; the
  model stops there with \<open>StagingOverflow\<close>.
\<close>

fun cleanupLoop :: "32 word \<Rightarrow> 32 word \<Rightarrow> 32 word list \<Rightarrow> 32 word list \<Rightarrow> error + 32 word list" where
  "cleanupLoop st en [] staged = Inr staged"
| "cleanupLoop st en (a # rest) staged =
     (if a > en \<or> a < st then
        (if length staged < stagingCapacity then cleanupLoop st en rest (staged @ [a])
         else Inl StagingOverflow)
      else cleanupLoop st en rest staged)"

definition cleanupFunctionInfo :: "functionInfo \<Rightarrow> error + functionInfo" where
  "cleanupFunctionInfo functionInfo =
     (case cleanupLoop (start functionInfo) (endAddr functionInfo) (jumpsTo functionInfo) [] of
        Inl e \<Rightarrow> Inl e
      | Inr staged \<Rightarrow> Inr (functionInfo\<lparr>jumpsTo := staged\<rparr>))"

section \<open>Building the call graph: \<open>createNewFunctionInfo\<close> and the loop of \<open>main\<close>\<close>

text \<open>
  \<open>createNewFunctionInfo\<close> returns a null pointer (\<open>None\<close>) when the label has no
  \<open><\<close> or no \<open>>\<close>.  When the first \<open>>\<close> stands before the first \<open><\<close> the
  length handed to \<open>malloc\<close> and \<open>memcpy\<close> is negative (\<open>BadLength\<close>).
\<close>

definition createNewFunctionInfo :: "string \<Rightarrow> error + functionInfo option" where
  "createNewFunctionInfo label =
     (let address = strtoul16 label in
      case (strchr label CHR ''<'', strchr label CHR ''>'') of
        (Some nameP, Some nameEnd) \<Rightarrow>
          if length nameP \<le> length nameEnd then Inl BadLength
          else Inr (Some \<lparr>name = take (length nameP - length nameEnd - 1) (tl nameP),
                           start = address, endAddr = address, ownStack = 0, deepest = 0,
                           jumpsTo = [], usesFunctionPointers = False, isProcessed = False\<rparr>)
      | _ \<Rightarrow> Inr None)"

definition sectionString :: string where
  "sectionString = ''Disassembly of section ''"

definition textSectionString :: string where
  "textSectionString = ''Disassembly of section .text''"

definition labelEndString :: string where
  "labelEndString = ''>:''"

definition stackPointerString :: string where
  "stackPointerString = '' '' @ tab @ ''addiu'' @ tab @ ''sp,sp,''"

text \<open>The part of the loop body that handles an instruction line (from the end address
  on).  The write into \<open>jumpsTo\<close> is not checked against the 10000 entries allocated.\<close>

definition recordJump :: "string \<Rightarrow> functionInfo \<Rightarrow> error + functionInfo" where
  "recordJump inputBuffer f =
     (case (case strrchr inputBuffer CHR '','' of
              Some p \<Rightarrow> Some p
            | None \<Rightarrow> strrchr inputBuffer CHR 0x09) of
        None \<Rightarrow> Inl NullDereference
      | Some addressPosition \<Rightarrow>
          if length (jumpsTo f) < jumpsToCapacity
          then Inr (f\<lparr>jumpsTo := jumpsTo f @ [strtoul16 (tl addressPosition)]\<rparr>)
          else Inl JumpTableOverflow)"

definition processInstruction :: "string \<Rightarrow> functionInfo \<Rightarrow> error + functionInfo" where
  "processInstruction inputBuffer f =
     (let address = strtoul16 inputBuffer;
          f1 = (if address > endAddr f then f\<lparr>endAddr := address\<rparr> else f)
      in case strstr inputBuffer stackPointerString of
           Some p \<Rightarrow>
             let movement = strtol10 (drop (length stackPointerString) p)
             in Inr (if movement < 0 then f1\<lparr>ownStack := ownStack f1 - word_of_int movement\<rparr>
                     else f1)
         | None \<Rightarrow>
             if strstr inputBuffer ('' '' @ tab @ ''b'') \<noteq> None \<or>
                strstr inputBuffer ('' '' @ tab @ ''j'') \<noteq> None
             then
               if strstr inputBuffer ('' '' @ tab @ ''jr'' @ tab @ ''ra'') \<noteq> None then Inr f1
               else if strstr inputBuffer ('' '' @ tab @ ''jalr'' @ tab) \<noteq> None
               then Inr (f1\<lparr>usesFunctionPointers := True\<rparr>)
               else if strstr inputBuffer ('' '' @ tab @ ''jr'' @ tab) \<noteq> None then Inr f1
               else recordJump inputBuffer f1
             else Inr f1)"

text \<open>
  One pass through the body of the \<open>while\<close> loop, after the test for a null
  \<open>currentFunctionInfo\<close>.  The list is kept as the records before the current one
  (\<open>closed\<close>) and the current one.  The buffer of the loop body has no value before the
  first \<open>fgets\<close>; when that call reads nothing, the body goes on to read the buffer
  (\<open>IndeterminateBuffer\<close>).
\<close>

definition openNext ::
    "functionInfo list \<Rightarrow> functionInfo \<Rightarrow> string \<Rightarrow> stream \<Rightarrow>
       error + (functionInfo list \<times> functionInfo option \<times> stream)" where
  "openNext closed cur label s =
     (case cleanupFunctionInfo cur of
        Inl e \<Rightarrow> Inl e
      | Inr cur' \<Rightarrow>
          (case createNewFunctionInfo label of
             Inl e \<Rightarrow> Inl e
           | Inr new \<Rightarrow> Inr (closed @ [cur'], new, s)))"

definition loopBody ::
    "functionInfo list \<Rightarrow> functionInfo \<Rightarrow> stream \<Rightarrow>
       error + (functionInfo list \<times> functionInfo option \<times> stream)" where
  "loopBody closed cur s =
     (case fgets 500 s of
        (None, s1) \<Rightarrow> Inl IndeterminateBuffer
      | (Some inputBuffer, s1) \<Rightarrow>
          if strstr inputBuffer sectionString \<noteq> None then
            (case cleanupFunctionInfo cur of
               Inl e \<Rightarrow> Inl e
             | Inr cur' \<Rightarrow>
                 let s2 = (if strstr inputBuffer textSectionString = None
                           then findNextTextSection s1 else s1);
                     (r, s3) = fgets 500 s2;
                     label = (case r of None \<Rightarrow> inputBuffer | Some line \<Rightarrow> line)
                 in (case createNewFunctionInfo label of
                       Inl e \<Rightarrow> Inl e
                     | Inr new \<Rightarrow> Inr (closed @ [cur'], new, s3)))
          else
            (case (if strstr inputBuffer labelEndString \<noteq> None
                   then (case strchr inputBuffer CHR ''<'' of
                           None \<Rightarrow> Inl NullDereference
                         | Some p \<Rightarrow> Inr (take 1 (tl p) \<noteq> ''.''))
                   else Inr False) of
               Inl e \<Rightarrow> Inl e
             | Inr True \<Rightarrow> openNext closed cur inputBuffer s1
             | Inr False \<Rightarrow>
                 (case processInstruction inputBuffer cur of
                    Inl e \<Rightarrow> Inl e
                  | Inr cur' \<Rightarrow> Inr (closed, Some cur', s1))))"

text \<open>
  The \<open>while\<close> loop.  \<open>Inr None\<close> is the exit through \<open>something went wrong\<close>;
  \<open>Inr (Some fs)\<close> is the list that the loop leaves behind when the stream is at its end.
\<close>

function mainLoop ::
    "functionInfo list \<Rightarrow> functionInfo option \<Rightarrow> stream \<Rightarrow> error + functionInfo list option" where
  "mainLoop closed currentFunctionInfo s =
     (if feof s then Inr (Some (closed @ (case currentFunctionInfo of None \<Rightarrow> [] | Some cur \<Rightarrow> [cur])))
      else
        (case currentFunctionInfo of
           None \<Rightarrow> Inr None
         | Some cur \<Rightarrow>
             (case loopBody closed cur s of
                Inl e \<Rightarrow> Inl e
              | Inr (closed', current', s') \<Rightarrow> mainLoop closed' current' s')))"
  by pat_completeness auto
termination
proof (relation "measure (\<lambda>(closed, cur, s). streamSize s)")
  have dec: "streamSize y < streamSize s" if "\<not> feof s" "(x, y) = fgets 500 s" for s x y
  proof -
    obtain cs e where s: "s = (cs, e)" by (cases s)
    from that(1) have e: "\<not> e" by (simp add: s feof_def)
    show ?thesis
    proof (cases cs)
      case Nil
      with that(2) e show ?thesis by (simp add: s fgets_def streamSize_def)
    next
      case (Cons c cs')
      have "readLine 499 cs \<noteq> []" by (simp add: Cons numeral_eq_Suc)
      then have "length (drop (length (readLine 499 cs)) cs) < length cs"
        by (simp add: Cons)
      with that(2) e show ?thesis
        by (auto simp: s fgets_def streamSize_def Let_def Cons)
    qed
  qed
  have le: "streamSize (snd (fgets 500 s)) \<le> streamSize s" for s
  proof -
    obtain cs e where s: "s = (cs, e)" by (cases s)
    show ?thesis by (auto simp: s fgets_def streamSize_def Let_def)
  qed
  have loop_le: "streamSize (findNextTextSectionLoop b s) \<le> streamSize s" for b s
  proof (induction b s rule: findNextTextSectionLoop.induct)
    case (1 inputBuffer disassemblyInput)
    show ?case
    proof (cases "\<not> feof disassemblyInput \<and>
        \<not> strncmp_eq inputBuffer expectedString (length expectedString)")
      case False
      then show ?thesis by (subst findNextTextSectionLoop.simps) auto
    next
      case True
      obtain x y where f: "fgets 500 disassemblyInput = (x, y)" by (cases "fgets 500 disassemblyInput")
      have y: "streamSize y \<le> streamSize disassemblyInput" using le [of disassemblyInput] f by simp
      show ?thesis
      proof (cases x)
        case None
        have "findNextTextSectionLoop inputBuffer disassemblyInput = findNextTextSectionLoop inputBuffer y"
          using True f None by (subst findNextTextSectionLoop.simps) simp
        moreover have "streamSize (findNextTextSectionLoop inputBuffer y) \<le> streamSize y"
          using "1.IH"(1) [OF True f [symmetric] None] .
        ultimately show ?thesis using y by simp
      next
        case (Some line)
        have "findNextTextSectionLoop inputBuffer disassemblyInput = findNextTextSectionLoop line y"
          using True f Some by (subst findNextTextSectionLoop.simps) simp
        moreover have "streamSize (findNextTextSectionLoop line y) \<le> streamSize y"
          using "1.IH"(2) [OF True f [symmetric] Some] .
        ultimately show ?thesis using y by simp
      qed
    qed
  qed
  have find_le: "streamSize (findNextTextSection s) \<le> streamSize s" for s
  proof -
    obtain x y where f: "fgets 500 s = (x, y)" by (cases "fgets 500 s")
    have y: "streamSize y \<le> streamSize s" using le [of s] f by simp
    have "streamSize (case x of None \<Rightarrow> y | Some line \<Rightarrow> findNextTextSectionLoop line y) \<le> streamSize y"
      using loop_le by (cases x) auto
    then show ?thesis
      using le [of "case x of None \<Rightarrow> y | Some line \<Rightarrow> findNextTextSectionLoop line y"] y
      by (simp add: findNextTextSection_def f Let_def)
  qed
  have body: "streamSize s' < streamSize s"
    if "\<not> feof s" "loopBody closed cur s = Inr (closed', current', s')"
    for closed cur s closed' current' s'
  proof -
    obtain x s1 where f: "fgets 500 s = (x, s1)" by (cases "fgets 500 s")
    have s1: "streamSize s1 < streamSize s" using dec [OF that(1) f [symmetric]] .
    from that(2) f obtain inputBuffer where x: "x = Some inputBuffer"
      by (cases x) (auto simp: loopBody_def)
    show ?thesis
    proof (cases "strstr inputBuffer sectionString \<noteq> None")
      case True
      let ?s2 = "if strstr inputBuffer textSectionString = None then findNextTextSection s1 else s1"
      have s2: "streamSize ?s2 \<le> streamSize s1" using find_le by simp
      have "s' = snd (fgets 500 ?s2)"
        using that(2) f x True
        by (auto simp: loopBody_def Let_def split: sum.splits prod.splits if_splits)
      then have "streamSize s' \<le> streamSize ?s2" using le [of ?s2] by simp
      with s2 s1 show ?thesis by simp
    next
      case False
      have "s' = s1"
        using that(2) f x False
        by (auto simp: loopBody_def openNext_def split: sum.splits prod.splits if_splits option.splits bool.splits)
      with s1 show ?thesis by simp
    qed
  qed
  show "wf (measure (\<lambda>(closed, cur, s). streamSize s))" by simp
  show "((closed', current', s'), closed, currentFunctionInfo, s)
      \<in> measure (\<lambda>(closed, cur, s). streamSize s)"
    if "\<not> feof s" "currentFunctionInfo = Some cur" "loopBody closed cur s = Inr x"
      "(closed', y) = x" "(current', s') = y"
    for closed currentFunctionInfo s cur x closed' y current' s'
    using body [of s closed cur closed' current' s'] that by (cases x) auto
qed

section \<open>Address lookup: \<open>findFunctionByAddress\<close>\<close>

fun findFunctionByAddress :: "functionInfo list \<Rightarrow> 32 word \<Rightarrow> nat option" where
  "findFunctionByAddress [] address = None"
| "findFunctionByAddress (current # rest) address =
     (if start current \<le> address \<and> endAddr current \<ge> address then Some 0
      else map_option Suc (findFunctionByAddress rest address))"

section \<open>Depth resolution: \<open>getDeepestStackUsage\<close>\<close>

text \<open>
  The function recurses through the call graph and mutates the records, so the model
  threads the list of records and the lines printed so far (one pair of function name and
  target address for each \<open>Jump Target not found\<close> message).  The first argument bounds
  the depth of the recursion: \<open>None\<close> means that the bound was reached, or that the
  pointer does not point into the list.  The \<open>for\<close> loop over \<open>jumpsTo\<close> is
  \<open>jumpLoop\<close>, which receives the entries that are still to be visited.
\<close>

type_synonym diagnostic = "string \<times> 32 word"

fun getDeepestStackUsage ::
      "nat \<Rightarrow> functionInfo list \<Rightarrow> diagnostic list \<Rightarrow> nat \<Rightarrow>
         (functionInfo list \<times> diagnostic list \<times> 32 word) option"
  and jumpLoop ::
      "nat \<Rightarrow> functionInfo list \<Rightarrow> diagnostic list \<Rightarrow> nat \<Rightarrow> 32 word list \<Rightarrow>
         (functionInfo list \<times> diagnostic list) option"
where
  "getDeepestStackUsage 0 fs out target = None"
| "getDeepestStackUsage (Suc n) fs out target =
     (if target \<ge> length fs then None
      else if \<not> isProcessed (fs ! target) then
        (case jumpLoop n (fs[target := (fs ! target)\<lparr>isProcessed := True\<rparr>]) out target
                (jumpsTo (fs ! target)) of
           None \<Rightarrow> None
         | Some (fs', out') \<Rightarrow>
             let fs'' = fs'[target := (fs' ! target)
                            \<lparr>deepest := deepest (fs' ! target) + ownStack (fs' ! target)\<rparr>]
             in Some (fs'', out', deepest (fs'' ! target)))
      else Some (fs, out, deepest (fs ! target)))"
| "jumpLoop n fs out target [] = Some (fs, out)"
| "jumpLoop n fs out target (a # rest) =
     (case findFunctionByAddress fs a of
        None \<Rightarrow> jumpLoop n fs (out @ [(name (fs ! target), a)]) target rest
      | Some jumpTarget \<Rightarrow>
          (case getDeepestStackUsage n fs out jumpTarget of
             None \<Rightarrow> None
           | Some (fs', out', thisBranch) \<Rightarrow>
               jumpLoop n
                 (if thisBranch > deepest (fs' ! target)
                  then fs'[target := (fs' ! target)\<lparr>deepest := thisBranch\<rparr>]
                  else fs')
                 out' target rest))"

section \<open>The resolution pass of \<open>main\<close>\<close>

text \<open>
  \<open>main\<close> walks the list from \<open>firstFunctionInfo\<close> and calls the resolver on every node.
  The recursion bound handed to each call is one more than the number of records.
\<close>

fun resolveLoop :: "nat list \<Rightarrow> functionInfo list \<Rightarrow> diagnostic list \<Rightarrow>
      (functionInfo list \<times> diagnostic list) option" where
  "resolveLoop [] fs out = Some (fs, out)"
| "resolveLoop (current # rest) fs out =
     (case getDeepestStackUsage (Suc (length fs)) fs out current of
        None \<Rightarrow> None
      | Some (fs', out', v) \<Rightarrow> resolveLoop rest fs' out')"

definition resolveAll :: "functionInfo list \<Rightarrow> diagnostic list \<Rightarrow>
      (functionInfo list \<times> diagnostic list) option" where
  "resolveAll fs out = resolveLoop [0 ..< length fs] fs out"

section \<open>Ranking: \<open>sortForDeepest\<close> and \<open>sortForOwn\<close>\<close>

text \<open>
  The two functions differ only in the field they compare, so both are instances of
  \<open>sortList\<close>.  A node pointer is a position in the list; exchanging the node after
  \<open>current\<close> with its successor is \<open>swapNext\<close>.  Reading \<open>->next\<close> or a key through a
  null pointer is \<open>NullDereference\<close>.  The counters are \<open>uint32_t\<close>: \<open>count - 1\<close> wraps
  for the empty list, and after that the counters only move between 0 and their start
  value.
\<close>

definition swapNext :: "nat \<Rightarrow> 'a list \<Rightarrow> 'a list" where
  "swapNext p xs = xs[p := xs ! Suc p, Suc p := xs ! p]"

definition compareSwap ::
    "(functionInfo \<Rightarrow> 32 word) \<Rightarrow> nat \<Rightarrow> functionInfo list \<Rightarrow> error + functionInfo list" where
  "compareSwap key p xs =
     (if Suc p < length xs
      then Inr (if key (xs ! p) < key (xs ! Suc p) then swapNext p xs else xs)
      else Inl NullDereference)"

function innerLoop ::
    "(functionInfo \<Rightarrow> 32 word) \<Rightarrow> nat \<Rightarrow> nat \<Rightarrow> functionInfo list \<Rightarrow> error + functionInfo list" where
  "innerLoop key j i xs =
     (if j < i then
        (case compareSwap key j xs of
           Inl e \<Rightarrow> Inl e
         | Inr xs' \<Rightarrow> innerLoop key (Suc j) i xs')
      else Inr xs)"
  by pat_completeness auto
termination
  by (relation "measure (\<lambda>(key, j, i, xs). i - j)") auto

function outerLoop ::
    "(functionInfo \<Rightarrow> 32 word) \<Rightarrow> nat \<Rightarrow> functionInfo list \<Rightarrow> error + functionInfo list" where
  "outerLoop key i xs =
     (if i > 0 then
        (case compareSwap key 0 xs of
           Inl e \<Rightarrow> Inl e
         | Inr xs1 \<Rightarrow>
             (case innerLoop key 1 i xs1 of
                Inl e \<Rightarrow> Inl e
              | Inr xs2 \<Rightarrow> outerLoop key (i - 1) xs2))
      else Inr xs)"
  by pat_completeness auto
termination
  by (relation "measure (\<lambda>(key, i, xs). i)") auto

definition sortList ::
    "(functionInfo \<Rightarrow> 32 word) \<Rightarrow> functionInfo list \<Rightarrow> error + functionInfo list" where
  "sortList key xs = outerLoop key (unat ((of_nat (length xs) :: 32 word) - 1)) xs"

definition sortForDeepest :: "functionInfo list \<Rightarrow> error + functionInfo list" where
  "sortForDeepest = sortList deepest"

definition sortForOwn :: "functionInfo list \<Rightarrow> error + functionInfo list" where
  "sortForOwn = sortList ownStack"

section \<open>\<open>main\<close>\<close>

text \<open>
  \<open>main\<close> after its options are read: \<open>sorting\<close> and \<open>printcount\<close> are the two
  options, the stream is what \<open>openDisassembly\<close> returns.  The result is the return
  value of \<open>main\<close> and what it printed: the table is the header followed by one \<open>Row\<close>
  for each record printed.
\<close>

datatype printed =
    SomethingWentWrong
  | JumpTargetNotFound string "32 word"
  | Header
  | Row string "32 word" "32 word" bool
  | Done

definition printStackInfo :: "32 word \<Rightarrow> functionInfo list \<Rightarrow> printed list" where
  "printStackInfo num fs =
     Header # map (\<lambda>f. Row (name f) (ownStack f) (deepest f) (usesFunctionPointers f))
                (take (unat num) fs)"

definition main :: "char \<Rightarrow> 32 word \<Rightarrow> stream \<Rightarrow> error + (int \<times> printed list)" where
  "main sorting printcount disassemblyInput =
     (case fgets 500 (findNextTextSection disassemblyInput) of
        (None, s) \<Rightarrow> Inl IndeterminateBuffer
      | (Some inputBuffer, s) \<Rightarrow>
          (case createNewFunctionInfo inputBuffer of
             Inl e \<Rightarrow> Inl e
           | Inr firstFunctionInfo \<Rightarrow>
               (case mainLoop [] firstFunctionInfo s of
                  Inl e \<Rightarrow> Inl e
                | Inr None \<Rightarrow> Inr (- 1, [SomethingWentWrong])
                | Inr (Some fs) \<Rightarrow>
                    (case resolveAll fs [] of
                       None \<Rightarrow> Inl RecursionBound
                     | Some (fs', out) \<Rightarrow>
                         (case (if sorting = CHR ''o'' then sortForOwn fs'
                                else if sorting = CHR ''d'' then sortForDeepest fs'
                                else Inr fs') of
                            Inl e \<Rightarrow> Inl e
                          | Inr ranked \<Rightarrow>
                              Inr (0, map (\<lambda>(n, a). JumpTargetNotFound n a) out @
                                      printStackInfo printcount ranked @ [Done]))))))"

section \<open>Notions used in the statements and proofs\<close>

text \<open>\<open>eraseDyn\<close> forgets the two fields the resolver writes, so two lists with the same
  erasure differ at most in \<open>deepest\<close> and \<open>isProcessed\<close>.\<close>

definition eraseDyn :: "functionInfo \<Rightarrow> functionInfo" where
  "eraseDyn f = f\<lparr>deepest := 0, isProcessed := False\<rparr>"

definition sameStatic :: "functionInfo list \<Rightarrow> functionInfo list \<Rightarrow> bool" where
  "sameStatic fs fs' \<longleftrightarrow> map eraseDyn fs' = map eraseDyn fs"

text \<open>What a call of the resolver may change: nothing but the dynamic fields, and no
  record that was already marked; the loop of function \<open>t\<close> may also raise the
  \<open>deepest\<close> of \<open>t\<close>.\<close>

definition frame :: "functionInfo list \<Rightarrow> functionInfo list \<Rightarrow> bool" where
  "frame fs fs' \<longleftrightarrow>
     sameStatic fs fs' \<and> (\<forall>g < length fs. isProcessed (fs ! g) \<longrightarrow> fs' ! g = fs ! g)"

definition frameBut :: "nat \<Rightarrow> functionInfo list \<Rightarrow> functionInfo list \<Rightarrow> bool" where
  "frameBut t fs fs' \<longleftrightarrow> sameStatic fs fs' \<and>
     (\<forall>g < length fs. g \<noteq> t \<longrightarrow> isProcessed (fs ! g) \<longrightarrow> fs' ! g = fs ! g) \<and>
     isProcessed (fs' ! t) \<and> deepest (fs ! t) \<le> deepest (fs' ! t)"

text \<open>The number of records not yet marked bounds the depth of the recursion.\<close>

definition unprocessed :: "functionInfo list \<Rightarrow> nat" where
  "unprocessed fs = card {g. g < length fs \<and> \<not> isProcessed (fs ! g)}"

text \<open>\<open>withEdges t es fs\<close> is the list \<open>fs\<close> with the edges of the record at \<open>t\<close>
  replaced by \<open>es\<close>.\<close>

definition withEdges :: "nat \<Rightarrow> 32 word list \<Rightarrow> functionInfo list \<Rightarrow> functionInfo list" where
  "withEdges t es fs = fs[t := (fs ! t)\<lparr>jumpsTo := es\<rparr>]"

text \<open>
  For the bound on the values: \<open>totalOwn\<close> adds up all frame sizes as natural numbers,
  \<open>finishedOwn\<close> those of the records that are marked and not in the set \<open>busy\<close> of
  functions whose loop is still running.
\<close>

definition totalOwn :: "functionInfo list \<Rightarrow> nat" where
  "totalOwn fs = sum_list (map (\<lambda>f. unat (ownStack f)) fs)"

definition finishedOwn :: "functionInfo list \<Rightarrow> nat set \<Rightarrow> nat" where
  "finishedOwn fs busy =
     (\<Sum>g \<in> {g. g < length fs \<and> isProcessed (fs ! g) \<and> g \<notin> busy}. unat (ownStack (fs ! g)))"

definition bounded :: "functionInfo list \<Rightarrow> nat set \<Rightarrow> bool" where
  "bounded fs busy \<longleftrightarrow>
     (\<forall>g < length fs. unat (deepest (fs ! g)) \<le> finishedOwn fs busy) \<and>
     (\<forall>g < length fs. isProcessed (fs ! g) \<longrightarrow> g \<notin> busy \<longrightarrow> ownStack (fs ! g) \<le> deepest (fs ! g))"

text \<open>
  For acyclic graphs.  \<open>calleeDepths fs g\<close> lists, edge by edge, the \<open>deepest\<close> of the
  record that the edge resolves to.  A record is \<open>settled\<close> when it is marked, all its
  edges resolve to marked records, and its \<open>deepest\<close> is its own frame plus the largest
  of these values (0 when it has no edge).  \<open>acyclicBy rank fs\<close> says that every edge
  resolves and leads to a record of smaller rank.
\<close>

definition calleeDepths :: "functionInfo list \<Rightarrow> nat \<Rightarrow> 32 word list" where
  "calleeDepths fs g =
     map (\<lambda>a. case findFunctionByAddress fs a of None \<Rightarrow> 0 | Some h \<Rightarrow> deepest (fs ! h))
       (jumpsTo (fs ! g))"

definition settled :: "functionInfo list \<Rightarrow> nat \<Rightarrow> bool" where
  "settled fs g \<longleftrightarrow>
     isProcessed (fs ! g) \<and>
     (\<forall>a \<in> set (jumpsTo (fs ! g)). \<exists>h. findFunctionByAddress fs a = Some h \<and> isProcessed (fs ! h)) \<and>
     deepest (fs ! g) = ownStack (fs ! g) + fold max (calleeDepths fs g) 0"

definition acyclicBy :: "(nat \<Rightarrow> nat) \<Rightarrow> functionInfo list \<Rightarrow> bool" where
  "acyclicBy rank fs \<longleftrightarrow>
     (\<forall>g < length fs. \<forall>a \<in> set (jumpsTo (fs ! g)).
        \<exists>h. findFunctionByAddress fs a = Some h \<and> rank h < rank g)"

definition restOk :: "(nat \<Rightarrow> nat) \<Rightarrow> nat \<Rightarrow> functionInfo list \<Rightarrow> bool" where
  "restOk rank r fs \<longleftrightarrow>
     (\<forall>g < length fs. rank g < r \<longrightarrow>
        settled fs g \<or> (\<not> isProcessed (fs ! g) \<and> deepest (fs ! g) = 0))"

definition newlySettled :: "(nat \<Rightarrow> nat) \<Rightarrow> nat \<Rightarrow> functionInfo list \<Rightarrow> functionInfo list \<Rightarrow> nat \<Rightarrow> bool" where
  "newlySettled rank r fs fs' g \<longleftrightarrow>
     (\<not> isProcessed (fs ! g) \<longrightarrow> fs' ! g = fs ! g \<or> (settled fs' g \<and> rank g < r))"

text \<open>
  \<open>resolverCalls n fs out target\<close> lists, in order, every recursive call that
  \<open>getDeepestStackUsage n fs out target\<close> makes, directly or in a nested call: the records
  at the moment of the call and the function the call is made on.  It follows the
  recursion of the resolver equation by equation.
\<close>

fun resolverCalls ::
      "nat \<Rightarrow> functionInfo list \<Rightarrow> diagnostic list \<Rightarrow> nat \<Rightarrow> (functionInfo list \<times> nat) list"
  and loopCalls ::
      "nat \<Rightarrow> functionInfo list \<Rightarrow> diagnostic list \<Rightarrow> nat \<Rightarrow> 32 word list \<Rightarrow>
         (functionInfo list \<times> nat) list"
where
  "resolverCalls 0 fs out target = []"
| "resolverCalls (Suc n) fs out target =
     (if target \<ge> length fs then []
      else if \<not> isProcessed (fs ! target) then
        loopCalls n (fs[target := (fs ! target)\<lparr>isProcessed := True\<rparr>]) out target
          (jumpsTo (fs ! target))
      else [])"
| "loopCalls n fs out target [] = []"
| "loopCalls n fs out target (a # rest) =
     (case findFunctionByAddress fs a of
        None \<Rightarrow> loopCalls n fs (out @ [(name (fs ! target), a)]) target rest
      | Some jumpTarget \<Rightarrow>
          (fs, jumpTarget) # resolverCalls n fs out jumpTarget @
          (case getDeepestStackUsage n fs out jumpTarget of
             None \<Rightarrow> []
           | Some (fs', out', thisBranch) \<Rightarrow>
               loopCalls n
                 (if thisBranch > deepest (fs' ! target)
                  then fs'[target := (fs' ! target)\<lparr>deepest := thisBranch\<rparr>]
                  else fs')
                 out' target rest))"

text \<open>One pass of adjacent comparisons as a function on lists, for the proofs.\<close>

fun bubbleN :: "(functionInfo \<Rightarrow> 32 word) \<Rightarrow> nat \<Rightarrow> functionInfo list \<Rightarrow> functionInfo list" where
  "bubbleN key (Suc k) (x # y # zs) =
     (if key x < key y then y # bubbleN key k (x # zs) else x # bubbleN key k (y # zs))"
| "bubbleN key k xs = xs"

fun bubbleSortN :: "(functionInfo \<Rightarrow> 32 word) \<Rightarrow> nat \<Rightarrow> functionInfo list \<Rightarrow> functionInfo list" where
  "bubbleSortN key 0 xs = xs"
| "bubbleSortN key (Suc i) xs = bubbleSortN key i (bubbleN key (Suc i) xs)"

section \<open>Inputs of the worked examples\<close>

definition mutualA :: functionInfo where
  "mutualA = \<lparr>name = ''A'', start = 0x100, endAddr = 0x1FC, ownStack = 16, deepest = 0,
     jumpsTo = [0x200], usesFunctionPointers = False, isProcessed = False\<rparr>"

definition mutualB :: functionInfo where
  "mutualB = \<lparr>name = ''B'', start = 0x200, endAddr = 0x2FC, ownStack = 16, deepest = 0,
     jumpsTo = [0x100], usesFunctionPointers = False, isProcessed = False\<rparr>"

definition plainA :: functionInfo where
  "plainA = \<lparr>name = ''A'', start = 0x100, endAddr = 0x1FC, ownStack = 16, deepest = 0,
     jumpsTo = [0x200], usesFunctionPointers = False, isProcessed = False\<rparr>"

definition plainB :: functionInfo where
  "plainB = \<lparr>name = ''B'', start = 0x200, endAddr = 0x2FC, ownStack = 8, deepest = 0,
     jumpsTo = [], usesFunctionPointers = False, isProcessed = False\<rparr>"

definition diamond :: "functionInfo list" where
  "diamond =
    [\<lparr>name = ''top'', start = 0x100, endAddr = 0x1FC, ownStack = 16, deepest = 0,
       jumpsTo = [0x200, 0x300, 0x210], usesFunctionPointers = False, isProcessed = False\<rparr>,
     \<lparr>name = ''left'', start = 0x200, endAddr = 0x2FC, ownStack = 8, deepest = 0,
       jumpsTo = [0x400], usesFunctionPointers = False, isProcessed = False\<rparr>,
     \<lparr>name = ''right'', start = 0x300, endAddr = 0x3FC, ownStack = 40, deepest = 0,
       jumpsTo = [0x400], usesFunctionPointers = False, isProcessed = False\<rparr>,
     \<lparr>name = ''leaf'', start = 0x400, endAddr = 0x4FC, ownStack = 24, deepest = 0,
       jumpsTo = [], usesFunctionPointers = False, isProcessed = False\<rparr>]"

definition callerOfNowhere :: functionInfo where
  "callerOfNowhere = \<lparr>name = ''caller'', start = 0x100, endAddr = 0x1FC, ownStack = 24,
     deepest = 0, jumpsTo = [0x200, 0x9000, 0x200], usesFunctionPointers = False,
     isProcessed = False\<rparr>"

definition leafCallee :: functionInfo where
  "leafCallee = \<lparr>name = ''leaf'', start = 0x200, endAddr = 0x2FC, ownStack = 8,
     deepest = 0, jumpsTo = [], usesFunctionPointers = False, isProcessed = False\<rparr>"

definition loopingCaller :: functionInfo where
  "loopingCaller = \<lparr>name = ''loops'', start = 0x100, endAddr = 0x1FC, ownStack = 8,
     deepest = 0, jumpsTo = [0x400, 0x120, 0x100, 0x300, 0x1FC, 0x400, 0xFC, 0x200],
     usesFunctionPointers = False, isProcessed = False\<rparr>"

definition manyCalls :: functionInfo where
  "manyCalls = \<lparr>name = ''dispatcher'', start = 0x100, endAddr = 0x1FC, ownStack = 0,
     deepest = 0, jumpsTo = replicate 1001 0x400, usesFunctionPointers = False,
     isProcessed = False\<rparr>"

definition selfAndManyCalls :: functionInfo where
  "selfAndManyCalls = \<lparr>name = ''dispatcher'', start = 0x100, endAddr = 0x1FC, ownStack = 0,
     deepest = 0, jumpsTo = 0x100 # replicate 1001 0x400, usesFunctionPointers = False,
     isProcessed = False\<rparr>"

definition wrapA :: functionInfo where
  "wrapA = \<lparr>name = ''A'', start = 0x100, endAddr = 0x1FC, ownStack = 0x80000000, deepest = 0,
     jumpsTo = [0x200], usesFunctionPointers = False, isProcessed = False\<rparr>"

definition wrapB :: functionInfo where
  "wrapB = \<lparr>name = ''B'', start = 0x200, endAddr = 0x2FC, ownStack = 0x80000000, deepest = 0,
     jumpsTo = [], usesFunctionPointers = False, isProcessed = False\<rparr>"

definition hugeT :: functionInfo where
  "hugeT = \<lparr>name = ''T'', start = 0x100, endAddr = 0x1FC, ownStack = 0xFFFFFFFF, deepest = 0,
     jumpsTo = [0x200], usesFunctionPointers = False, isProcessed = False\<rparr>"

definition smallB :: functionInfo where
  "smallB = \<lparr>name = ''B'', start = 0x200, endAddr = 0x2FC, ownStack = 1, deepest = 0,
     jumpsTo = [0x100], usesFunctionPointers = False, isProcessed = False\<rparr>"

definition tiedRanking :: "functionInfo list" where
  "tiedRanking =
    [\<lparr>name = ''a'', start = 0x100, endAddr = 0x1FC, ownStack = 8, deepest = 24,
       jumpsTo = [], usesFunctionPointers = False, isProcessed = True\<rparr>,
     \<lparr>name = ''b'', start = 0x200, endAddr = 0x2FC, ownStack = 16, deepest = 40,
       jumpsTo = [], usesFunctionPointers = False, isProcessed = True\<rparr>,
     \<lparr>name = ''c'', start = 0x300, endAddr = 0x3FC, ownStack = 8, deepest = 24,
       jumpsTo = [], usesFunctionPointers = False, isProcessed = True\<rparr>,
     \<lparr>name = ''d'', start = 0x400, endAddr = 0x4FC, ownStack = 16, deepest = 40,
       jumpsTo = [], usesFunctionPointers = False, isProcessed = True\<rparr>]"

definition unparsableLastLabel :: string where
  "unparsableLastLabel =
     ''Disassembly of section .text:'' @ nl @ nl @
     ''9d000000 <main>:'' @ nl @
     ''9d000000:'' @ tab @ ''27bdffe8 '' @ tab @ ''addiu'' @ tab @ ''sp,sp,-24'' @ nl @
     ''9d000004:'' @ tab @ ''03e00008 '' @ tab @ ''jr'' @ tab @ ''ra'' @ nl @
     ''Disassembly of section .text.startup:'' @ nl @
     ''9d000100 startup:''"

definition bitrevLine :: string where
  "bitrevLine = ''9d000008:'' @ tab @ ''7c02e0a0 '' @ tab @ ''bitrev'' @ tab @ ''v0,v1'' @ nl"

definition bitrevArgLine :: string where
  "bitrevArgLine = ''9d000008:'' @ tab @ ''7c05e0a0 '' @ tab @ ''bitrev'' @ tab @ ''a0,a1'' @ nl"

definition openRecord :: functionInfo where
  "openRecord = \<lparr>name = ''main'', start = 0x9d000000, endAddr = 0x9d000004, ownStack = 24,
     deepest = 0, jumpsTo = [], usesFunctionPointers = False, isProcessed = False\<rparr>"

chapter \<open>Properties\<close>

section \<open>Basic facts about the resolver\<close>

lemma sameStatic_refl [simp]: "sameStatic fs fs"
  by (simp add: sameStatic_def)

lemma sameStatic_trans: "sameStatic fs fs' \<Longrightarrow> sameStatic fs' fs'' \<Longrightarrow> sameStatic fs fs''"
  by (simp add: sameStatic_def)

lemma sameStatic_length: "sameStatic fs fs' \<Longrightarrow> length fs' = length fs"
  unfolding sameStatic_def by (metis length_map)

lemma sameStatic_nth:
  assumes "sameStatic fs fs'" "g < length fs"
  shows "eraseDyn (fs' ! g) = eraseDyn (fs ! g)"
proof -
  have "map eraseDyn fs' ! g = map eraseDyn fs ! g"
    using assms by (simp add: sameStatic_def)
  then show ?thesis
    using assms sameStatic_length [OF assms(1)] by simp
qed

lemma eraseDyn_fields:
  "eraseDyn f' = eraseDyn f \<Longrightarrow>
     name f' = name f \<and> start f' = start f \<and> endAddr f' = endAddr f \<and>
     ownStack f' = ownStack f \<and> jumpsTo f' = jumpsTo f \<and>
     usesFunctionPointers f' = usesFunctionPointers f"
  unfolding eraseDyn_def
  by (cases f, cases f') simp

lemmas sameStatic_fields = eraseDyn_fields [OF sameStatic_nth]

lemma sameStatic_update_deepest:
  "t < length fs \<Longrightarrow> sameStatic fs (fs[t := (fs ! t)\<lparr>deepest := d\<rparr>])"
  by (simp add: sameStatic_def list_eq_iff_nth_eq nth_list_update eraseDyn_def)

lemma sameStatic_update_processed:
  "t < length fs \<Longrightarrow> sameStatic fs (fs[t := (fs ! t)\<lparr>isProcessed := b\<rparr>])"
  by (simp add: sameStatic_def list_eq_iff_nth_eq nth_list_update eraseDyn_def)

lemma find_sameStatic:
  "sameStatic fs fs' \<Longrightarrow> findFunctionByAddress fs' a = findFunctionByAddress fs a"
proof (induction fs arbitrary: fs')
  case Nil
  then show ?case by (simp add: sameStatic_def)
next
  case (Cons f fs)
  then obtain f' fs'' where fs': "fs' = f' # fs''"
    by (cases fs') (auto simp: sameStatic_def)
  with Cons.prems have e: "eraseDyn f' = eraseDyn f" and s: "sameStatic fs fs''"
    by (auto simp: sameStatic_def)
  show ?case
    using Cons.IH [OF s] eraseDyn_fields [OF e] by (simp add: fs')
qed

lemma find_Some_bound:
  "findFunctionByAddress fs a = Some j \<Longrightarrow>
     j < length fs \<and> start (fs ! j) \<le> a \<and> a \<le> endAddr (fs ! j)"
  by (induction fs arbitrary: j) (auto split: if_splits)

lemma find_None_iff:
  "findFunctionByAddress fs a = None \<longleftrightarrow> (\<forall>f \<in> set fs. \<not> (start f \<le> a \<and> a \<le> endAddr f))"
  by (induction fs) auto

lemma frame_refl [simp]: "frame fs fs"
  by (simp add: frame_def)

lemma resolver_frame:
  "(\<forall>fs' out' v. getDeepestStackUsage n fs out t = Some (fs', out', v) \<longrightarrow>
      t < length fs \<and> frame fs fs' \<and> isProcessed (fs' ! t) \<and> v = deepest (fs' ! t))"
  "(\<forall>fs' out'. jumpLoop n fs out t as = Some (fs', out') \<longrightarrow> t < length fs \<longrightarrow>
      isProcessed (fs ! t) \<longrightarrow> frameBut t fs fs')"
proof (induction n fs out t and n fs out t as rule: getDeepestStackUsage_jumpLoop.induct)
  case (1 fs out target)
  then show ?case by simp
next
  case (2 n fs out target)
  show ?case
  proof (intro allI impI)
    fix fs' out' v
    assume r: "getDeepestStackUsage (Suc n) fs out target = Some (fs', out', v)"
    then have lt: "target < length fs" by (auto split: if_splits)
    show "target < length fs \<and> frame fs fs' \<and> isProcessed (fs' ! target) \<and> v = deepest (fs' ! target)"
    proof (cases "isProcessed (fs ! target)")
      case True
      with r lt show ?thesis by auto
    next
      case False
      let ?fs1 = "fs[target := (fs ! target)\<lparr>isProcessed := True\<rparr>]"
      from r lt False obtain fs2 where
        l: "jumpLoop n ?fs1 out target (jumpsTo (fs ! target)) = Some (fs2, out')" and
        fs': "fs' = fs2[target := (fs2 ! target)\<lparr>deepest := deepest (fs2 ! target) + ownStack (fs2 ! target)\<rparr>]" and
        v: "v = deepest (fs' ! target)"
        by (auto split: option.splits simp: Let_def)
      from 2 lt False l have fb: "frameBut target ?fs1 fs2" by simp
      have s1: "sameStatic fs ?fs1" using lt by (rule sameStatic_update_processed)
      have len2: "length fs2 = length fs"
        using fb sameStatic_length [of ?fs1 fs2] by (simp add: frameBut_def)
      have s2: "sameStatic fs2 fs'"
        unfolding fs' using lt len2 by (intro sameStatic_update_deepest) simp
      have "sameStatic fs fs'"
        using s1 fb s2 by (auto simp: frameBut_def intro: sameStatic_trans)
      moreover have "\<forall>g < length fs. isProcessed (fs ! g) \<longrightarrow> fs' ! g = fs ! g"
      proof (intro allI impI)
        fix g assume g: "g < length fs" "isProcessed (fs ! g)"
        with False have ne: "g \<noteq> target" by auto
        with fb g have "fs2 ! g = fs ! g" by (simp add: frameBut_def)
        with ne show "fs' ! g = fs ! g" by (simp add: fs')
      qed
      moreover have "isProcessed (fs' ! target)"
        using fb lt len2 by (simp add: fs' frameBut_def)
      ultimately show ?thesis using lt v by (simp add: frame_def)
    qed
  qed
next
  case (3 n fs out target)
  then show ?case by (simp add: frameBut_def)
next
  case (4 n fs out target a rest)
  show ?case
  proof (intro allI impI)
    fix fs' out'
    assume r: "jumpLoop n fs out target (a # rest) = Some (fs', out')"
      and lt: "target < length fs" and p: "isProcessed (fs ! target)"
    show "frameBut target fs fs'"
    proof (cases "findFunctionByAddress fs a")
      case None
      with 4(1) r lt p show ?thesis by simp
    next
      case (Some j)
      from r Some obtain fs1 out1 v where
        g: "getDeepestStackUsage n fs out j = Some (fs1, out1, v)" and
        l: "jumpLoop n (if deepest (fs1 ! target) < v
               then fs1[target := (fs1 ! target)\<lparr>deepest := v\<rparr>] else fs1) out1 target rest
             = Some (fs', out')"
        by (auto split: option.splits)
      let ?fs2 = "if deepest (fs1 ! target) < v
               then fs1[target := (fs1 ! target)\<lparr>deepest := v\<rparr>] else fs1"
      from 4(2) [OF Some] g have f1: "frame fs fs1" by simp
      have len1: "length fs1 = length fs"
        using f1 sameStatic_length by (auto simp: frame_def)
      have t1: "fs1 ! target = fs ! target"
        using f1 lt p by (simp add: frame_def)
      have s2: "sameStatic fs1 ?fs2"
        using lt len1 by (simp add: sameStatic_update_deepest)
      have p2: "isProcessed (?fs2 ! target)" using t1 p lt len1 by simp
      have len2: "length ?fs2 = length fs" using len1 by simp
      from 4(3) [OF Some g refl refl] l lt p2 len2 have fb: "frameBut target ?fs2 fs'"
        by simp
      have "sameStatic fs fs'"
        using f1 s2 fb by (auto simp: frame_def frameBut_def intro: sameStatic_trans)
      moreover have "\<forall>g < length fs. g \<noteq> target \<longrightarrow> isProcessed (fs ! g) \<longrightarrow> fs' ! g = fs ! g"
      proof (intro allI impI)
        fix g assume g: "g < length fs" "g \<noteq> target" "isProcessed (fs ! g)"
        then have "fs1 ! g = fs ! g" using f1 by (simp add: frame_def)
        moreover have "?fs2 ! g = fs1 ! g" using g by simp
        moreover have "fs' ! g = ?fs2 ! g"
          using fb g len2 \<open>fs1 ! g = fs ! g\<close> \<open>?fs2 ! g = fs1 ! g\<close>
          unfolding frameBut_def by metis
        ultimately show "fs' ! g = fs ! g" by simp
      qed
      moreover have "isProcessed (fs' ! target)" using fb by (simp add: frameBut_def)
      moreover have "deepest (fs ! target) \<le> deepest (fs' ! target)"
      proof -
        have "deepest (fs ! target) \<le> deepest (?fs2 ! target)"
          using t1 lt len1 by auto
        also have "\<dots> \<le> deepest (fs' ! target)" using fb by (simp add: frameBut_def)
        finally show ?thesis .
      qed
      ultimately show ?thesis by (simp add: frameBut_def)
    qed
  qed
qed

section \<open>Termination of the resolver\<close>

lemma procMono_unprocessed:
  assumes "length fs' = length fs"
    and "\<And>g. g < length fs \<Longrightarrow> isProcessed (fs ! g) \<Longrightarrow> isProcessed (fs' ! g)"
  shows "unprocessed fs' \<le> unprocessed fs"
  unfolding unprocessed_def
  by (rule card_mono) (use assms in auto)

lemma frame_unprocessed: "frame fs fs' \<Longrightarrow> unprocessed fs' \<le> unprocessed fs"
  by (rule procMono_unprocessed) (auto simp: frame_def dest: sameStatic_length)

lemma frameBut_unprocessed:
  assumes "frameBut t fs fs'"
  shows "unprocessed fs' \<le> unprocessed fs"
proof (rule procMono_unprocessed)
  show "length fs' = length fs" using assms by (auto simp: frameBut_def dest: sameStatic_length)
next
  fix g assume "g < length fs" "isProcessed (fs ! g)"
  then show "isProcessed (fs' ! g)"
    using assms by (cases "g = t") (auto simp: frameBut_def)
qed

lemma unprocessed_mark:
  assumes "t < length fs" "\<not> isProcessed (fs ! t)"
  shows "unprocessed (fs[t := (fs ! t)\<lparr>isProcessed := True\<rparr>]) < unprocessed fs"
  unfolding unprocessed_def
proof (rule psubset_card_mono)
  show "finite {g. g < length fs \<and> \<not> isProcessed (fs ! g)}" by simp
  have "t \<in> {g. g < length fs \<and> \<not> isProcessed (fs ! g)}" using assms by simp
  moreover have "t \<notin> {g. g < length (fs[t := (fs ! t)\<lparr>isProcessed := True\<rparr>]) \<and>
        \<not> isProcessed (fs[t := (fs ! t)\<lparr>isProcessed := True\<rparr>] ! g)}"
    using assms by simp
  moreover have "{g. g < length (fs[t := (fs ! t)\<lparr>isProcessed := True\<rparr>]) \<and>
        \<not> isProcessed (fs[t := (fs ! t)\<lparr>isProcessed := True\<rparr>] ! g)}
       \<subseteq> {g. g < length fs \<and> \<not> isProcessed (fs ! g)}"
    using assms by (auto simp: nth_list_update split: if_splits)
  ultimately show "{g. g < length (fs[t := (fs ! t)\<lparr>isProcessed := True\<rparr>]) \<and>
        \<not> isProcessed (fs[t := (fs ! t)\<lparr>isProcessed := True\<rparr>] ! g)}
       \<subset> {g. g < length fs \<and> \<not> isProcessed (fs ! g)}"
    by blast
qed

lemma unprocessed_le_length: "unprocessed fs \<le> length fs"
proof -
  have "card {g. g < length fs \<and> \<not> isProcessed (fs ! g)} \<le> card {..<length fs}"
    by (rule card_mono) auto
  then show ?thesis by (simp add: unprocessed_def)
qed

lemma unprocessed_update_deepest [simp]:
  "unprocessed (fs[t := (fs ! t)\<lparr>deepest := d\<rparr>]) = unprocessed fs"
proof -
  have "\<And>g. g < length fs \<Longrightarrow>
      isProcessed (fs[t := (fs ! t)\<lparr>deepest := d\<rparr>] ! g) = isProcessed (fs ! g)"
    by (cases "t < length fs") (auto simp: nth_list_update)
  then show ?thesis unfolding unprocessed_def
    by (intro arg_cong [where f = card]) auto
qed

lemma resolver_terminates:
  "unprocessed fs < n \<longrightarrow> t < length fs \<longrightarrow> getDeepestStackUsage n fs out t \<noteq> None"
  "unprocessed fs < n \<longrightarrow> t < length fs \<longrightarrow> isProcessed (fs ! t) \<longrightarrow>
     jumpLoop n fs out t as \<noteq> None"
proof (induction n fs out t and n fs out t as rule: getDeepestStackUsage_jumpLoop.induct)
  case (1 fs out target)
  then show ?case by simp
next
  case (2 n fs out target)
  show ?case
  proof (intro impI)
    assume u: "unprocessed fs < Suc n" and lt: "target < length fs"
    show "getDeepestStackUsage (Suc n) fs out target \<noteq> None"
    proof (cases "isProcessed (fs ! target)")
      case True
      with lt show ?thesis by simp
    next
      case False
      have "unprocessed (fs[target := (fs ! target)\<lparr>isProcessed := True\<rparr>]) < n"
        using unprocessed_mark [OF lt False] u by simp
      with 2 lt False
      have "jumpLoop n (fs[target := (fs ! target)\<lparr>isProcessed := True\<rparr>]) out target
              (jumpsTo (fs ! target)) \<noteq> None"
        by simp
      with lt False show ?thesis by (auto simp: Let_def)
    qed
  qed
next
  case (3 n fs out target)
  then show ?case by simp
next
  case (4 n fs out target a rest)
  show ?case
  proof (intro impI)
    assume u: "unprocessed fs < n" and lt: "target < length fs"
      and p: "isProcessed (fs ! target)"
    show "jumpLoop n fs out target (a # rest) \<noteq> None"
    proof (cases "findFunctionByAddress fs a")
      case None
      with 4(1) u lt p show ?thesis by simp
    next
      case (Some j)
      then have j: "j < length fs" by (simp add: find_Some_bound)
      with 4(2) [OF Some] u obtain fs1 out1 v where
        g: "getDeepestStackUsage n fs out j = Some (fs1, out1, v)"
        by auto
      let ?fs2 = "if deepest (fs1 ! target) < v
               then fs1[target := (fs1 ! target)\<lparr>deepest := v\<rparr>] else fs1"
      have f1: "frame fs fs1" using resolver_frame(1) g by blast
      have len1: "length fs1 = length fs"
        using f1 sameStatic_length by (auto simp: frame_def)
      have t1: "fs1 ! target = fs ! target"
        using f1 lt p by (simp add: frame_def)
      have "unprocessed ?fs2 = unprocessed fs1" by simp
      then have u2: "unprocessed ?fs2 < n" using frame_unprocessed [OF f1] u by simp
      have p2: "isProcessed (?fs2 ! target)" using t1 p lt len1 by simp
      have len2: "length ?fs2 = length fs" using len1 by simp
      from 4(3) [OF Some g refl refl] u2 lt p2 len2
      have "jumpLoop n ?fs2 out1 target rest \<noteq> None" by simp
      with Some g show ?thesis by simp
    qed
  qed
qed

lemma resolver_returns:
  assumes "t < length fs"
  shows "\<exists>fs' out' v. getDeepestStackUsage (Suc (length fs)) fs out t = Some (fs', out', v)"
proof -
  have "unprocessed fs < Suc (length fs)" using unprocessed_le_length [of fs] by simp
  with resolver_terminates(1) assms
  have "getDeepestStackUsage (Suc (length fs)) fs out t \<noteq> None" by blast
  then show ?thesis by auto
qed

lemma resolveLoop_returns:
  "\<forall>i \<in> set is. i < length fs \<Longrightarrow>
     \<exists>fs' out'. resolveLoop is fs out = Some (fs', out') \<and> length fs' = length fs"
proof (induction "is" arbitrary: fs out)
  case Nil
  then show ?case by simp
next
  case (Cons i "is")
  then have "i < length fs" by simp
  from resolver_returns [OF this, of out] obtain fs1 out1 v where
    g: "getDeepestStackUsage (Suc (length fs)) fs out i = Some (fs1, out1, v)" by blast
  then have "frame fs fs1" using resolver_frame(1) by blast
  then have len: "length fs1 = length fs" by (auto simp: frame_def dest: sameStatic_length)
  with Cons.prems have "\<forall>i \<in> set is. i < length fs1" by simp
  from Cons.IH [OF this, of out1] g len show ?case by auto
qed

lemma resolveAll_returns: "\<exists>fs' out'. resolveAll fs out = Some (fs', out')"
  using resolveLoop_returns [of "[0 ..< length fs]" fs out] by (auto simp: resolveAll_def)

section \<open>Further facts about the resolver\<close>

lemma find_ranges_cong:
  "map (\<lambda>f. (start f, endAddr f)) fs' = map (\<lambda>f. (start f, endAddr f)) fs \<Longrightarrow>
     findFunctionByAddress fs' a = findFunctionByAddress fs a"
proof (induction fs arbitrary: fs')
  case Nil
  then show ?case by simp
next
  case (Cons f fs)
  then obtain f' fs'' where fs': "fs' = f' # fs''" by (cases fs') auto
  with Cons.prems have e: "start f' = start f" "endAddr f' = endAddr f"
    and m: "map (\<lambda>f. (start f, endAddr f)) fs'' = map (\<lambda>f. (start f, endAddr f)) fs"
    by simp_all
  show ?case using Cons.IH [OF m] e by (simp add: fs')
qed

lemma getDeepestStackUsage_frame:
  "getDeepestStackUsage n fs out t = Some (fs', out', v) \<Longrightarrow> frame fs fs'"
  using resolver_frame(1) by blast

lemma getDeepestStackUsage_length:
  "getDeepestStackUsage n fs out t = Some (fs', out', v) \<Longrightarrow> length fs' = length fs"
  by (drule getDeepestStackUsage_frame) (simp add: frame_def sameStatic_length)

lemma getDeepestStackUsage_keeps:
  "getDeepestStackUsage n fs out t = Some (fs', out', v) \<Longrightarrow> g < length fs \<Longrightarrow>
     isProcessed (fs ! g) \<Longrightarrow> fs' ! g = fs ! g"
  by (drule getDeepestStackUsage_frame) (simp add: frame_def)

lemma jumpLoop_frameBut:
  "jumpLoop n fs out t as = Some (fs', out') \<Longrightarrow> t < length fs \<Longrightarrow> isProcessed (fs ! t) \<Longrightarrow>
     frameBut t fs fs'"
  using resolver_frame(2) by blast

text \<open>The messages already printed are never read.\<close>

lemma resolver_output:
  "\<forall>fs' out' v. getDeepestStackUsage n fs out t = Some (fs', out', v) \<longrightarrow>
     (\<exists>d. out' = out @ d \<and> (\<forall>out0. getDeepestStackUsage n fs out0 t = Some (fs', out0 @ d, v)))"
  "\<forall>fs' out'. jumpLoop n fs out t as = Some (fs', out') \<longrightarrow>
     (\<exists>d. out' = out @ d \<and> (\<forall>out0. jumpLoop n fs out0 t as = Some (fs', out0 @ d)))"
proof (induction n fs out t and n fs out t as rule: getDeepestStackUsage_jumpLoop.induct)
  case (1 fs out target)
  then show ?case by simp
next
  case (2 n fs out target)
  show ?case
  proof (intro allI impI)
    fix fs' out' v
    assume r: "getDeepestStackUsage (Suc n) fs out target = Some (fs', out', v)"
    then have lt: "target < length fs" by (auto split: if_splits)
    show "\<exists>d. out' = out @ d \<and>
        (\<forall>out0. getDeepestStackUsage (Suc n) fs out0 target = Some (fs', out0 @ d, v))"
    proof (cases "isProcessed (fs ! target)")
      case True
      with r lt show ?thesis by auto
    next
      case False
      let ?fs1 = "fs[target := (fs ! target)\<lparr>isProcessed := True\<rparr>]"
      from r lt False obtain fs2 where
        l: "jumpLoop n ?fs1 out target (jumpsTo (fs ! target)) = Some (fs2, out')" and
        fs': "fs' = fs2[target := (fs2 ! target)\<lparr>deepest := deepest (fs2 ! target) + ownStack (fs2 ! target)\<rparr>]" and
        v: "v = deepest (fs' ! target)"
        by (auto split: option.splits simp: Let_def)
      from 2 [OF _ False] lt l obtain d where d: "out' = out @ d"
        "\<And>out0. jumpLoop n ?fs1 out0 target (jumpsTo (fs ! target)) = Some (fs2, out0 @ d)"
        by (meson not_le)
      have "\<And>out0. getDeepestStackUsage (Suc n) fs out0 target = Some (fs', out0 @ d, v)"
        using lt False d(2) fs' v by (simp add: Let_def)
      with d(1) show ?thesis by blast
    qed
  qed
next
  case (3 n fs out target)
  then show ?case by simp
next
  case (4 n fs out target a rest)
  show ?case
  proof (intro allI impI)
    fix fs' out'
    assume r: "jumpLoop n fs out target (a # rest) = Some (fs', out')"
    show "\<exists>d. out' = out @ d \<and> (\<forall>out0. jumpLoop n fs out0 target (a # rest) = Some (fs', out0 @ d))"
    proof (cases "findFunctionByAddress fs a")
      case None
      with r have "jumpLoop n fs (out @ [(name (fs ! target), a)]) target rest = Some (fs', out')"
        by simp
      with 4(1) [OF None] obtain d where d: "out' = (out @ [(name (fs ! target), a)]) @ d"
        "\<And>out0. jumpLoop n fs out0 target rest = Some (fs', out0 @ d)"
        by meson
      have "\<And>out0. jumpLoop n fs out0 target (a # rest)
            = Some (fs', out0 @ ((name (fs ! target), a) # d))"
        using None d(2) [of "out0 @ [(name (fs ! target), a)]" for out0] by simp
      with d(1) show ?thesis by (intro exI [of _ "(name (fs ! target), a) # d"]) simp
    next
      case (Some j)
      from r Some obtain fs1 out1 v where
        g: "getDeepestStackUsage n fs out j = Some (fs1, out1, v)" and
        l: "jumpLoop n (if deepest (fs1 ! target) < v
               then fs1[target := (fs1 ! target)\<lparr>deepest := v\<rparr>] else fs1) out1 target rest
             = Some (fs', out')"
        by (auto split: option.splits)
      let ?fs2 = "if deepest (fs1 ! target) < v
               then fs1[target := (fs1 ! target)\<lparr>deepest := v\<rparr>] else fs1"
      from 4(2) [OF Some] g obtain d1 where d1: "out1 = out @ d1"
        "\<And>out0. getDeepestStackUsage n fs out0 j = Some (fs1, out0 @ d1, v)"
        by meson
      from 4(3) [OF Some g refl refl] l obtain d2 where d2: "out' = out1 @ d2"
        "\<And>out0. jumpLoop n ?fs2 out0 target rest = Some (fs', out0 @ d2)"
        by meson
      have "\<And>out0. jumpLoop n fs out0 target (a # rest) = Some (fs', out0 @ (d1 @ d2))"
        using Some d1(2) d2(2) [of "out0 @ d1" for out0] by simp
      with d1(1) d2(1) show ?thesis by (intro exI [of _ "d1 @ d2"]) simp
    qed
  qed
qed

lemma jumpLoop_append:
  "jumpLoop n fs out t (as1 @ as2) =
     (case jumpLoop n fs out t as1 of
        None \<Rightarrow> None
      | Some (fs1, out1) \<Rightarrow> jumpLoop n fs1 out1 t as2)"
  by (induction as1 arbitrary: fs out) (auto split: option.splits)

lemma length_withEdges [simp]: "length (withEdges t es fs) = length fs"
  by (simp add: withEdges_def)

lemma nth_withEdges:
  "g < length fs \<Longrightarrow>
     withEdges t es fs ! g = (if g = t then (fs ! t)\<lparr>jumpsTo := es\<rparr> else fs ! g)"
  by (auto simp: withEdges_def)

lemma withEdges_fields [simp]:
  "g < length fs \<Longrightarrow> isProcessed (withEdges t es fs ! g) = isProcessed (fs ! g)"
  "g < length fs \<Longrightarrow> deepest (withEdges t es fs ! g) = deepest (fs ! g)"
  "g < length fs \<Longrightarrow> ownStack (withEdges t es fs ! g) = ownStack (fs ! g)"
  "g < length fs \<Longrightarrow> name (withEdges t es fs ! g) = name (fs ! g)"
  "g < length fs \<Longrightarrow> g \<noteq> t \<Longrightarrow> jumpsTo (withEdges t es fs ! g) = jumpsTo (fs ! g)"
  by (simp_all add: nth_withEdges)

lemma withEdges_update:
  assumes "\<And>f. u (f\<lparr>jumpsTo := es\<rparr>) = (u f)\<lparr>jumpsTo := es\<rparr>"
    and "\<And>f. jumpsTo (u f) = jumpsTo f"
  shows "(withEdges t es fs)[j := u (withEdges t es fs ! j)] = withEdges t es (fs[j := u (fs ! j)])"
proof (cases "j < length fs")
  case True
  show ?thesis
  proof (rule nth_equalityI)
    show "length ((withEdges t es fs)[j := u (withEdges t es fs ! j)])
        = length (withEdges t es (fs[j := u (fs ! j)]))" by simp
  next
    fix i assume "i < length ((withEdges t es fs)[j := u (withEdges t es fs ! j)])"
    then have i: "i < length fs" by simp
    show "(withEdges t es fs)[j := u (withEdges t es fs ! j)] ! i
        = withEdges t es (fs[j := u (fs ! j)]) ! i"
      using i True assms(1) by (simp add: nth_withEdges nth_list_update)
  qed
next
  case False
  then show ?thesis by (simp add: list_update_beyond)
qed

lemma withEdges_mark:
  "(withEdges t es fs)[j := (withEdges t es fs ! j)\<lparr>isProcessed := True\<rparr>]
     = withEdges t es (fs[j := (fs ! j)\<lparr>isProcessed := True\<rparr>])"
  by (rule withEdges_update [where u = "\<lambda>f. f\<lparr>isProcessed := True\<rparr>"]) simp_all

lemma withEdges_deepest:
  "(withEdges t es fs)[j := (withEdges t es fs ! j)\<lparr>deepest := d\<rparr>]
     = withEdges t es (fs[j := (fs ! j)\<lparr>deepest := d\<rparr>])"
  by (rule withEdges_update [where u = "\<lambda>f. f\<lparr>deepest := d\<rparr>"]) simp_all

lemma find_withEdges [simp]:
  "findFunctionByAddress (withEdges t es fs) a = findFunctionByAddress fs a"
proof (rule find_ranges_cong, rule nth_equalityI)
  show "length (map (\<lambda>f. (start f, endAddr f)) (withEdges t es fs))
      = length (map (\<lambda>f. (start f, endAddr f)) fs)" by simp
next
  fix i assume "i < length (map (\<lambda>f. (start f, endAddr f)) (withEdges t es fs))"
  then have "i < length fs" by simp
  then show "map (\<lambda>f. (start f, endAddr f)) (withEdges t es fs) ! i
      = map (\<lambda>f. (start f, endAddr f)) fs ! i"
    by (simp add: nth_withEdges)
qed

text \<open>The edges of a record that is already marked are never read again.\<close>

lemma resolver_ignores_marked_edges:
  "\<forall>fs' out' v. t < length fs \<longrightarrow> isProcessed (fs ! t) \<longrightarrow>
     getDeepestStackUsage n fs out j = Some (fs', out', v) \<longrightarrow>
     getDeepestStackUsage n (withEdges t es fs) out j = Some (withEdges t es fs', out', v)"
  "\<forall>fs' out'. t < length fs \<longrightarrow> isProcessed (fs ! t) \<longrightarrow> j < length fs \<longrightarrow>
     jumpLoop n fs out j as = Some (fs', out') \<longrightarrow>
     jumpLoop n (withEdges t es fs) out j as = Some (withEdges t es fs', out')"
proof (induction n fs out j and n fs out j as rule: getDeepestStackUsage_jumpLoop.induct)
  case (1 fs out target)
  then show ?case by simp
next
  case (2 n fs out target)
  show ?case
  proof (intro allI impI)
    fix fs' out' v
    assume t: "t < length fs" and pt: "isProcessed (fs ! t)"
      and r: "getDeepestStackUsage (Suc n) fs out target = Some (fs', out', v)"
    from r have lt: "target < length fs" by (auto split: if_splits)
    show "getDeepestStackUsage (Suc n) (withEdges t es fs) out target
        = Some (withEdges t es fs', out', v)"
    proof (cases "isProcessed (fs ! target)")
      case True
      with r lt show ?thesis by auto
    next
      case False
      with pt have ne: "target \<noteq> t" by auto
      let ?fs1 = "fs[target := (fs ! target)\<lparr>isProcessed := True\<rparr>]"
      from r lt False obtain fs2 where
        l: "jumpLoop n ?fs1 out target (jumpsTo (fs ! target)) = Some (fs2, out')" and
        fs': "fs' = fs2[target := (fs2 ! target)\<lparr>deepest := deepest (fs2 ! target) + ownStack (fs2 ! target)\<rparr>]" and
        v: "v = deepest (fs' ! target)"
        by (auto split: option.splits simp: Let_def)
      have fb: "frameBut target ?fs1 fs2"
        using resolver_frame(2) l lt by (metis length_list_update nth_list_update_eq
            select_convs(8) surjective update_convs(8))
      then have len2: "length fs2 = length fs"
        by (auto simp: frameBut_def dest: sameStatic_length)
      have pt1: "isProcessed (?fs1 ! t)" using pt t ne by simp
      from 2 [OF _ False] lt t pt1 l
      have l': "jumpLoop n (withEdges t es ?fs1) out target (jumpsTo (fs ! target))
            = Some (withEdges t es fs2, out')"
        by simp
      have "getDeepestStackUsage (Suc n) (withEdges t es fs) out target
          = Some ((withEdges t es fs2)[target := (withEdges t es fs2 ! target)
                \<lparr>deepest := deepest (fs2 ! target) + ownStack (fs2 ! target)\<rparr>],
              out', deepest (fs2 ! target) + ownStack (fs2 ! target))"
        using lt False ne l' len2 by (simp add: withEdges_mark Let_def)
      moreover have "v = deepest (fs2 ! target) + ownStack (fs2 ! target)"
        using v lt len2 by (simp add: fs')
      ultimately show ?thesis by (simp add: withEdges_deepest fs')
    qed
  qed
next
  case (3 n fs out target)
  then show ?case by simp
next
  case (4 n fs out target a rest)
  show ?case
  proof (intro allI impI)
    fix fs' out'
    assume t: "t < length fs" and pt: "isProcessed (fs ! t)" and lt: "target < length fs"
      and r: "jumpLoop n fs out target (a # rest) = Some (fs', out')"
    show "jumpLoop n (withEdges t es fs) out target (a # rest) = Some (withEdges t es fs', out')"
    proof (cases "findFunctionByAddress fs a")
      case None
      with r have "jumpLoop n fs (out @ [(name (fs ! target), a)]) target rest = Some (fs', out')"
        by simp
      with 4(1) [OF None] t pt lt
      have "jumpLoop n (withEdges t es fs) (out @ [(name (fs ! target), a)]) target rest
          = Some (withEdges t es fs', out')" by simp
      with None lt show ?thesis by simp
    next
      case (Some j)
      from r Some obtain fs1 out1 v where
        g: "getDeepestStackUsage n fs out j = Some (fs1, out1, v)" and
        l: "jumpLoop n (if deepest (fs1 ! target) < v
               then fs1[target := (fs1 ! target)\<lparr>deepest := v\<rparr>] else fs1) out1 target rest
             = Some (fs', out')"
        by (auto split: option.splits)
      let ?fs2 = "if deepest (fs1 ! target) < v
               then fs1[target := (fs1 ! target)\<lparr>deepest := v\<rparr>] else fs1"
      have len1: "length fs1 = length fs" using g by (rule getDeepestStackUsage_length)
      have t1: "fs1 ! t = fs ! t" using g t pt by (rule getDeepestStackUsage_keeps)
      from 4(2) [OF Some] t pt g
      have g': "getDeepestStackUsage n (withEdges t es fs) out j = Some (withEdges t es fs1, out1, v)"
        by simp
      have pt2: "isProcessed (?fs2 ! t)" using t1 pt t lt len1
        by (cases "t = target") (simp_all add: nth_list_update)
      have len2: "length ?fs2 = length fs" using len1 by simp
      from 4(3) [OF Some g refl refl] l t lt pt2 len2
      have l': "jumpLoop n (withEdges t es ?fs2) out1 target rest = Some (withEdges t es fs', out')"
        by simp
      have "(if deepest (withEdges t es fs1 ! target) < v
             then (withEdges t es fs1)[target := (withEdges t es fs1 ! target)\<lparr>deepest := v\<rparr>]
             else withEdges t es fs1) = withEdges t es ?fs2"
        using lt len1 by (simp add: withEdges_deepest)
      with Some g' l' show ?thesis by simp
    qed
  qed
qed

section \<open>Closing a record\<close>

lemma cleanupLoop_filter:
  "length staged \<le> stagingCapacity \<Longrightarrow>
   cleanupLoop st en as staged =
     (if length staged + length (filter (\<lambda>a. a > en \<or> a < st) as) \<le> stagingCapacity
      then Inr (staged @ filter (\<lambda>a. a > en \<or> a < st) as)
      else Inl StagingOverflow)"
  by (induction as arbitrary: staged) auto

text \<open>
  As long as the kept targets fit into the local array of \<open>cleanupFunctionInfo\<close>, closing
  a record keeps exactly the targets that lie strictly outside the inclusive range from
  \<open>start\<close> to \<open>end\<close>, in the order in which they were recorded, and changes nothing
  else; a jump to the function's own start address is among the removed ones.
\<close>

theorem cleanupFunctionInfo_filters:
  "length (filter (\<lambda>a. a > endAddr f \<or> a < start f) (jumpsTo f)) \<le> stagingCapacity \<Longrightarrow>
     cleanupFunctionInfo f
       = Inr (f\<lparr>jumpsTo := filter (\<lambda>a. a > endAddr f \<or> a < start f) (jumpsTo f)\<rparr>) \<and>
     (start f \<le> endAddr f \<longrightarrow>
        start f \<notin> set (filter (\<lambda>a. a > endAddr f \<or> a < start f) (jumpsTo f)))"
  by (auto simp: cleanupFunctionInfo_def cleanupLoop_filter)

theorem cleanupFunctionInfo_filters_witness:
  "cleanupFunctionInfo loopingCaller = Inr (loopingCaller\<lparr>jumpsTo := [0x400, 0x300, 0x400, 0xFC, 0x200]\<rparr>)"
proof -
  have "length (filter (\<lambda>a. a > endAddr loopingCaller \<or> a < start loopingCaller)
          (jumpsTo loopingCaller)) \<le> stagingCapacity"
    by (simp add: loopingCaller_def stagingCapacity_def)
  from cleanupFunctionInfo_filters [OF this] show ?thesis
    by (simp add: loopingCaller_def)
qed

text \<open>
  Claim C6.  Closing a record does not filter every edge list: the kept targets are
  collected in the local array of 1000 entries.  For a function with one branch to its own
  start and 1001 calls to another function, the filtered list would be the 1001 calls; the
  source writes the last of them behind the local array.
\<close>

theorem closing_record_overruns_staging:
  "filter (\<lambda>a. a > endAddr selfAndManyCalls \<or> a < start selfAndManyCalls)
     (jumpsTo selfAndManyCalls) = replicate 1001 0x400 \<and>
   length (jumpsTo selfAndManyCalls) \<le> jumpsToCapacity \<and>
   cleanupFunctionInfo selfAndManyCalls = Inl StagingOverflow"
  by (simp add: cleanupFunctionInfo_def cleanupLoop_filter selfAndManyCalls_def
      stagingCapacity_def jumpsToCapacity_def)

text \<open>
  Claim C3.  Edge storage is not unbounded in the source: \<open>createNewFunctionInfo\<close>
  allocates room for 10000 targets, and \<open>cleanupFunctionInfo\<close> copies the kept ones into a
  local array of 1000.  A function with 1001 calls to other functions fits the first and
  overruns the second.
\<close>

theorem cleanupFunctionInfo_staging_overflow:
  "length (jumpsTo manyCalls) \<le> jumpsToCapacity \<and>
   cleanupFunctionInfo manyCalls = Inl StagingOverflow"
  by (simp add: cleanupFunctionInfo_def cleanupLoop_filter manyCalls_def stagingCapacity_def
      jumpsToCapacity_def)

section \<open>Cycles\<close>

text \<open>
  Claim C1.  The resolver returns on every call graph, cyclic or not: a recursion bound of
  one more than the number of records is never reached, for a single call and for the whole
  pass.  A call on a record that is already marked returns the value stored at that moment
  and changes nothing.  In the scenario (\<open>A\<close> and \<open>B\<close> call each other, each with a frame
  of 16 bytes) the pass starts with \<open>A\<close>, whose loop calls the resolver on \<open>B\<close>; this
  nested call is the first to finish, and it gives \<open>B\<close> the value 16: the call back to
  \<open>A\<close> contributed the 0 stored for \<open>A\<close> at that moment.  \<open>A\<close> finishes afterwards, with
  16 + 16 = 32.
\<close>

theorem cyclic_resolution_terminates:
  "(t < length fs \<longrightarrow>
      (\<exists>fs' out' v. getDeepestStackUsage (Suc (length fs)) fs out t = Some (fs', out', v))) \<and>
   (\<exists>fs' out'. resolveAll fs out = Some (fs', out')) \<and>
   (t < length fs \<longrightarrow> isProcessed (fs ! t) \<longrightarrow>
      getDeepestStackUsage (Suc n) fs out t = Some (fs, out, deepest (fs ! t))) \<and>
   getDeepestStackUsage (Suc (Suc 0)) [mutualA\<lparr>isProcessed := True\<rparr>, mutualB] [] 1
     = Some ([mutualA\<lparr>isProcessed := True\<rparr>,
              mutualB\<lparr>deepest := 16, isProcessed := True\<rparr>], [], 16) \<and>
   resolveAll [mutualA, mutualB] []
     = Some ([mutualA\<lparr>deepest := 32, isProcessed := True\<rparr>,
              mutualB\<lparr>deepest := 16, isProcessed := True\<rparr>], [])"
proof (intro conjI impI)
  assume "t < length fs"
  then show "\<exists>fs' out' v. getDeepestStackUsage (Suc (length fs)) fs out t = Some (fs', out', v)"
    by (rule resolver_returns)
next
  show "\<exists>fs' out'. resolveAll fs out = Some (fs', out')" by (rule resolveAll_returns)
next
  assume "t < length fs" "isProcessed (fs ! t)"
  then show "getDeepestStackUsage (Suc n) fs out t = Some (fs, out, deepest (fs ! t))" by simp
next
  show "getDeepestStackUsage (Suc (Suc 0)) [mutualA\<lparr>isProcessed := True\<rparr>, mutualB] [] 1
     = Some ([mutualA\<lparr>isProcessed := True\<rparr>,
              mutualB\<lparr>deepest := 16, isProcessed := True\<rparr>], [], 16)"
    by (simp add: mutualA_def mutualB_def)
next
  show "resolveAll [mutualA, mutualB] []
     = Some ([mutualA\<lparr>deepest := 32, isProcessed := True\<rparr>,
              mutualB\<lparr>deepest := 16, isProcessed := True\<rparr>], [])"
    by (simp add: resolveAll_def mutualA_def mutualB_def upt_rec)
qed

theorem cyclic_resolution_witness:
  "(1::nat) < length [mutualB\<lparr>deepest := 7\<rparr>, mutualA\<lparr>isProcessed := True\<rparr>] \<and>
   (\<exists>fs' out' v. getDeepestStackUsage (Suc (length [mutualB\<lparr>deepest := 7\<rparr>, mutualA\<lparr>isProcessed := True\<rparr>]))
       [mutualB\<lparr>deepest := 7\<rparr>, mutualA\<lparr>isProcessed := True\<rparr>] [] 1 = Some (fs', out', v)) \<and>
   getDeepestStackUsage (Suc 5) [mutualB\<lparr>deepest := 7\<rparr>, mutualA\<lparr>isProcessed := True\<rparr>] [] 1
     = Some ([mutualB\<lparr>deepest := 7\<rparr>, mutualA\<lparr>isProcessed := True\<rparr>], [], 0)"
  using cyclic_resolution_terminates
    [of 1 "[mutualB\<lparr>deepest := 7\<rparr>, mutualA\<lparr>isProcessed := True\<rparr>]" "[]" 5]
  by (simp add: mutualA_def)

section \<open>Unresolved call targets\<close>

lemma jumpsTo_withEdges_same [simp]:
  "t < length fs \<Longrightarrow> jumpsTo (withEdges t es fs ! t) = es"
  by (simp add: nth_withEdges)

lemma unresolved_target_any_bound:
  assumes nowhere: "\<forall>f \<in> set fs. \<not> (start f \<le> a \<and> a \<le> endAddr f)"
    and t: "t < length fs" and np: "\<not> isProcessed (fs ! t)"
    and edges: "jumpsTo (fs ! t) = as1 @ a # as2"
    and r: "getDeepestStackUsage n fs out t = Some (fs', out', v)"
  shows "\<exists>d1 d2. out' = out @ d1 @ [(name (fs ! t), a)] @ d2 \<and>
            getDeepestStackUsage n (withEdges t (as1 @ as2) fs) out t
              = Some (withEdges t (as1 @ as2) fs', out @ d1 @ d2, v)"
proof -
  from r obtain m where n: "n = Suc m" by (cases n) auto
  let ?fs1 = "fs[t := (fs ! t)\<lparr>isProcessed := True\<rparr>]"
  let ?W = "withEdges t (as1 @ as2)"
  from r t np n edges obtain fs2 where
    l: "jumpLoop m ?fs1 out t (as1 @ a # as2) = Some (fs2, out')" and
    fs': "fs' = fs2[t := (fs2 ! t)\<lparr>deepest := deepest (fs2 ! t) + ownStack (fs2 ! t)\<rparr>]" and
    v: "v = deepest (fs' ! t)"
    by (auto split: option.splits simp: Let_def)
  have t1: "t < length ?fs1" and p1: "isProcessed (?fs1 ! t)" using t by simp_all
  from l obtain fsA outA where
    lA: "jumpLoop m ?fs1 out t as1 = Some (fsA, outA)" and
    lB: "jumpLoop m fsA outA t (a # as2) = Some (fs2, out')"
    by (auto simp: jumpLoop_append split: option.splits)
  have fbA: "frameBut t ?fs1 fsA" using lA t1 p1 by (rule jumpLoop_frameBut)
  have s1: "sameStatic fs ?fs1" using t by (rule sameStatic_update_processed)
  have sA: "sameStatic fs fsA"
    using s1 fbA by (auto simp: frameBut_def intro: sameStatic_trans)
  have "findFunctionByAddress fs a = None" using nowhere by (simp add: find_None_iff)
  then have fA: "findFunctionByAddress fsA a = None" using find_sameStatic [OF sA] by simp
  have nameA: "name (fsA ! t) = name (fs ! t)" using sameStatic_fields [OF sA t] by simp
  from lB fA nameA
  have lC: "jumpLoop m fsA (outA @ [(name (fs ! t), a)]) t as2 = Some (fs2, out')" by simp
  from resolver_output(2) lA obtain d1 where d1: "outA = out @ d1" by meson
  from resolver_output(2) lC obtain d2 where d2: "out' = (outA @ [(name (fs ! t), a)]) @ d2"
    and any: "\<And>out0. jumpLoop m fsA out0 t as2 = Some (fs2, out0 @ d2)" by meson
  have l': "jumpLoop m ?fs1 out t (as1 @ as2) = Some (fs2, out @ d1 @ d2)"
    using lA any [of outA] d1 by (simp add: jumpLoop_append)
  have len2: "length fs2 = length fs"
    using jumpLoop_frameBut [OF l' t1 p1] by (auto simp: frameBut_def dest: sameStatic_length)
  from resolver_ignores_marked_edges(2) [of t ?fs1 t m out "as1 @ as2" "as1 @ as2"] t1 p1 l'
  have lW: "jumpLoop m (?W ?fs1) out t (as1 @ as2) = Some (?W fs2, out @ d1 @ d2)"
    by blast
  have "getDeepestStackUsage (Suc m) (?W fs) out t
      = Some ((?W fs2)[t := (?W fs2 ! t)\<lparr>deepest := deepest (fs2 ! t) + ownStack (fs2 ! t)\<rparr>],
              out @ d1 @ d2, deepest (fs2 ! t) + ownStack (fs2 ! t))"
    using t np lW len2 by (simp add: withEdges_mark Let_def)
  moreover have "v = deepest (fs2 ! t) + ownStack (fs2 ! t)"
    using v t len2 by (simp add: fs')
  ultimately have "getDeepestStackUsage n (?W fs) out t = Some (?W fs', out @ d1 @ d2, v)"
    by (simp add: withEdges_deepest fs' n)
  moreover have "out' = out @ d1 @ [(name (fs ! t), a)] @ d2" using d1 d2 by simp
  ultimately show ?thesis by blast
qed

text \<open>
  Claim C7.  Let \<open>a\<close> be a recorded target of the function at position \<open>t\<close> that lies in
  the range of no record, and let the resolver walk the edges of \<open>t\<close> (\<open>t\<close> is not yet
  marked).  Then the call returns; one of the lines it prints names the calling function
  and \<open>a\<close>; and the value it returns, the records it leaves and the other lines it
  prints are those of the same call on the graph in which that edge is missing.
\<close>

theorem unresolved_target_logged_and_ignored:
  assumes "\<forall>f \<in> set fs. \<not> (start f \<le> a \<and> a \<le> endAddr f)"
    and "t < length fs" and "\<not> isProcessed (fs ! t)"
    and "jumpsTo (fs ! t) = as1 @ a # as2"
  shows "\<exists>fs' v d1 d2.
           getDeepestStackUsage (Suc (length fs)) fs out t
             = Some (fs', out @ d1 @ [(name (fs ! t), a)] @ d2, v) \<and>
           getDeepestStackUsage (Suc (length fs)) (withEdges t (as1 @ as2) fs) out t
             = Some (withEdges t (as1 @ as2) fs', out @ d1 @ d2, v)"
proof -
  from resolver_returns [OF assms(2), of out] obtain fs' out' v where
    r: "getDeepestStackUsage (Suc (length fs)) fs out t = Some (fs', out', v)" by blast
  from unresolved_target_any_bound [OF assms r] r show ?thesis by blast
qed

theorem unresolved_target_witness:
  "getDeepestStackUsage (Suc (Suc (Suc 0))) [callerOfNowhere, leafCallee] [] 0 =
     Some ([callerOfNowhere\<lparr>deepest := 32, isProcessed := True\<rparr>,
          leafCallee\<lparr>deepest := 8, isProcessed := True\<rparr>], [(''caller'', 0x9000)], 32) \<and>
   getDeepestStackUsage (Suc (Suc (Suc 0)))
     (withEdges 0 [0x200, 0x200] [callerOfNowhere, leafCallee]) [] 0
   = Some (withEdges 0 [0x200, 0x200]
             [callerOfNowhere\<lparr>deepest := 32, isProcessed := True\<rparr>,
              leafCallee\<lparr>deepest := 8, isProcessed := True\<rparr>], [], 32)"
proof -
  have ev: "getDeepestStackUsage (Suc (Suc (Suc 0))) [callerOfNowhere, leafCallee] [] 0 =
     Some ([callerOfNowhere\<lparr>deepest := 32, isProcessed := True\<rparr>,
          leafCallee\<lparr>deepest := 8, isProcessed := True\<rparr>], [(''caller'', 0x9000)], 32)"
    by (simp add: callerOfNowhere_def leafCallee_def)
  have h1: "\<forall>f \<in> set [callerOfNowhere, leafCallee]. \<not> (start f \<le> 0x9000 \<and> 0x9000 \<le> endAddr f)"
    by (simp add: callerOfNowhere_def leafCallee_def)
  have h2: "(0::nat) < length [callerOfNowhere, leafCallee]" by simp
  have h3: "\<not> isProcessed ([callerOfNowhere, leafCallee] ! 0)" by (simp add: callerOfNowhere_def)
  have h4: "jumpsTo ([callerOfNowhere, leafCallee] ! 0) = [0x200] @ 0x9000 # [0x200]"
    by (simp add: callerOfNowhere_def)
  from unresolved_target_logged_and_ignored [OF h1 h2 h3 h4, of "[]"]
  obtain fs' v d1 d2 where
    a: "getDeepestStackUsage (Suc (length [callerOfNowhere, leafCallee])) [callerOfNowhere, leafCallee] [] 0
        = Some (fs', [] @ d1 @ [(name ([callerOfNowhere, leafCallee] ! 0), 0x9000)] @ d2, v)"
    and g: "getDeepestStackUsage (Suc (length [callerOfNowhere, leafCallee]))
        (withEdges 0 ([0x200] @ [0x200]) [callerOfNowhere, leafCallee]) [] 0
      = Some (withEdges 0 ([0x200] @ [0x200]) fs', [] @ d1 @ d2, v)"
    by blast
  from a ev have "fs' = [callerOfNowhere\<lparr>deepest := 32, isProcessed := True\<rparr>,
          leafCallee\<lparr>deepest := 8, isProcessed := True\<rparr>]" "v = 32"
      "d1 @ (name ([callerOfNowhere, leafCallee] ! 0), 0x9000) # d2 = [(''caller'', 0x9000)]"
    by simp_all
  moreover from this(3) have "d1 = []" "d2 = []"
    by (auto simp: append_eq_Cons_conv)
  ultimately show ?thesis using g ev by simp
qed

section \<open>Ranking\<close>

declare innerLoop.simps [simp del] outerLoop.simps [simp del]

lemma compareSwap_append:
  "compareSwap key (length pre) (pre @ x # y # post)
     = Inr (pre @ (if key x < key y then [y, x] else [x, y]) @ post)"
  by (simp add: compareSwap_def swapNext_def nth_append list_update_append)

lemma length_bubbleN [simp]: "length (bubbleN key k xs) = length xs"
  by (induction key k xs rule: bubbleN.induct) auto

lemma innerLoop_bubbleN:
  "k < length ys \<Longrightarrow>
     innerLoop key (length pre) (length pre + k) (pre @ ys) = Inr (pre @ bubbleN key k ys)"
proof (induction k arbitrary: pre ys)
  case 0
  then show ?case by (simp add: innerLoop.simps)
next
  case (Suc k)
  then obtain x y zs where ys: "ys = x # y # zs"
    by (cases ys; cases "tl ys") auto
  show ?case
  proof (cases "key x < key y")
    case True
    have "innerLoop key (length pre) (length pre + Suc k) (pre @ ys)
        = innerLoop key (length (pre @ [y])) (length (pre @ [y]) + k) ((pre @ [y]) @ x # zs)"
      using True by (subst innerLoop.simps) (simp add: ys compareSwap_append)
    also have "\<dots> = Inr ((pre @ [y]) @ bubbleN key k (x # zs))"
      using Suc.prems by (intro Suc.IH) (simp add: ys)
    finally show ?thesis using True by (simp add: ys)
  next
    case False
    have "innerLoop key (length pre) (length pre + Suc k) (pre @ ys)
        = innerLoop key (length (pre @ [x])) (length (pre @ [x]) + k) ((pre @ [x]) @ y # zs)"
      using False by (subst innerLoop.simps) (simp add: ys compareSwap_append)
    also have "\<dots> = Inr ((pre @ [x]) @ bubbleN key k (y # zs))"
      using Suc.prems by (intro Suc.IH) (simp add: ys)
    finally show ?thesis using False by (simp add: ys)
  qed
qed

lemma pass_bubbleN:
  assumes "0 < i" "i < length xs"
  shows "(case compareSwap key 0 xs of Inl e \<Rightarrow> Inl e | Inr xs1 \<Rightarrow> innerLoop key 1 i xs1)
       = Inr (bubbleN key i xs)"
proof -
  from assms obtain x y zs where xs: "xs = x # y # zs"
    by (cases xs; cases "tl xs") auto
  from assms obtain k where i: "i = Suc k" by (cases i) auto
  have k: "k < length (y # zs)" "k < length (x # zs)" using assms by (simp_all add: xs i)
  have c: "compareSwap key 0 xs = Inr ((if key x < key y then [y, x] else [x, y]) @ zs)"
    using compareSwap_append [of key "[]" x y zs] by (simp add: xs)
  show ?thesis
  proof (cases "key x < key y")
    case True
    have "innerLoop key (length [y]) (length [y] + k) ([y] @ x # zs)
        = Inr ([y] @ bubbleN key k (x # zs))"
      using k by (intro innerLoop_bubbleN) simp
    with c True show ?thesis by (simp add: xs i)
  next
    case False
    have "innerLoop key (length [x]) (length [x] + k) ([x] @ y # zs)
        = Inr ([x] @ bubbleN key k (y # zs))"
      using k by (intro innerLoop_bubbleN) simp
    with c False show ?thesis by (simp add: xs i)
  qed
qed

lemma outerLoop_bubbleSortN:
  "i < length xs \<Longrightarrow> outerLoop key i xs = Inr (bubbleSortN key i xs)"
proof (induction i arbitrary: xs)
  case 0
  then show ?case by (simp add: outerLoop.simps)
next
  case (Suc i)
  have p: "(case compareSwap key 0 xs of Inl e \<Rightarrow> Inl e | Inr xs1 \<Rightarrow> innerLoop key 1 (Suc i) xs1)
       = Inr (bubbleN key (Suc i) xs)"
    using Suc.prems by (intro pass_bubbleN) simp_all
  have "outerLoop key (Suc i) xs = outerLoop key i (bubbleN key (Suc i) xs)"
    using p by (subst outerLoop.simps) (auto split: sum.splits)
  also have "\<dots> = Inr (bubbleSortN key i (bubbleN key (Suc i) xs))"
    using Suc.prems by (intro Suc.IH) simp
  finally show ?case by simp
qed

lemma mset_bubbleN [simp]: "mset (bubbleN key k xs) = mset xs"
  by (induction key k xs rule: bubbleN.induct) auto

lemma filter_bubbleN [simp]:
  "filter (\<lambda>f. key f = c) (bubbleN key k xs) = filter (\<lambda>f. key f = c) xs"
  by (induction key k xs rule: bubbleN.induct) auto

lemma drop_bubbleN: "drop (Suc k) (bubbleN key k xs) = drop (Suc k) xs"
  by (induction key k xs rule: bubbleN.induct) auto

lemma mset_take_bubbleN: "mset (take (Suc k) (bubbleN key k xs)) = mset (take (Suc k) xs)"
proof -
  have "mset (take (Suc k) (bubbleN key k xs)) + mset (drop (Suc k) (bubbleN key k xs))
      = mset (take (Suc k) xs) + mset (drop (Suc k) xs)"
    by (simp only: mset_append [symmetric] append_take_drop_id mset_bubbleN)
  then show ?thesis by (simp add: drop_bubbleN)
qed

lemma set_take_bubbleN: "set (take (Suc k) (bubbleN key k xs)) = set (take (Suc k) xs)"
  using mset_take_bubbleN [of k key xs] by (metis set_mset_mset)

lemma bubbleN_last_least:
  "k < length xs \<Longrightarrow> \<forall>x \<in> set (take (Suc k) xs). key (bubbleN key k xs ! k) \<le> key x"
proof (induction key k xs rule: bubbleN.induct)
  fix key :: "functionInfo \<Rightarrow> 32 word" and xs :: "functionInfo list"
  assume "0 < length xs"
  then show "\<forall>x \<in> set (take (Suc 0) xs). key (bubbleN key 0 xs ! 0) \<le> key x"
    by (cases xs) auto
qed (auto simp: not_less)

lemma mset_bubbleSortN [simp]: "mset (bubbleSortN key i xs) = mset xs"
  by (induction i arbitrary: xs) auto

lemma filter_bubbleSortN [simp]:
  "filter (\<lambda>f. key f = c) (bubbleSortN key i xs) = filter (\<lambda>f. key f = c) xs"
  by (induction i arbitrary: xs) auto

lemma bubbleSortN_sorted:
  "i < length xs \<Longrightarrow> sorted_wrt (\<lambda>a b. key b \<le> key a) (drop (Suc i) xs) \<Longrightarrow>
   (\<forall>p \<in> set (take (Suc i) xs). \<forall>s \<in> set (drop (Suc i) xs). key s \<le> key p) \<Longrightarrow>
   sorted_wrt (\<lambda>a b. key b \<le> key a) (bubbleSortN key i xs)"
proof (induction i arbitrary: xs)
  case 0
  have "sorted_wrt (\<lambda>a b. key b \<le> key a) (take (Suc 0) xs @ drop (Suc 0) xs)"
    unfolding sorted_wrt_append using 0 by (cases xs) auto
  then show ?case by simp
next
  case (Suc i)
  let ?ys = "bubbleN key (Suc i) xs"
  let ?m = "?ys ! Suc i"
  have len: "Suc i < length ?ys" using Suc.prems(1) by simp
  have d: "drop (Suc i) ?ys = ?m # drop (Suc (Suc i)) xs"
    using Cons_nth_drop_Suc [OF len] by (simp add: drop_bubbleN)
  have least: "\<forall>x \<in> set (take (Suc (Suc i)) xs). key ?m \<le> key x"
    using Suc.prems(1) by (rule bubbleN_last_least)
  have "?m \<in> set (take (Suc (Suc i)) ?ys)"
    using len by (metis in_set_conv_nth length_take lessI min.absorb2 less_imp_le_nat nth_take Suc_leI)
  then have m_in: "?m \<in> set (take (Suc (Suc i)) xs)" by (simp only: set_take_bubbleN)
  have sub: "set (take (Suc i) ?ys) \<subseteq> set (take (Suc (Suc i)) xs)"
    using set_take_subset_set_take [of "Suc i" "Suc (Suc i)" ?ys]
    by (simp only: set_take_bubbleN)
  have a: "i < length ?ys" using len by simp
  have b: "sorted_wrt (\<lambda>a b. key b \<le> key a) (drop (Suc i) ?ys)"
    using Suc.prems(2,3) m_in by (simp add: d)
  have c: "\<forall>p \<in> set (take (Suc i) ?ys). \<forall>s \<in> set (drop (Suc i) ?ys). key s \<le> key p"
    using sub least Suc.prems(3) by (auto simp: d)
  from Suc.IH [OF a b c] show ?case by simp
qed

lemma unat_count_minus_1:
  assumes "xs \<noteq> []" "length xs < 2 ^ 32"
  shows "unat ((of_nat (length xs) :: 32 word) - 1) = length xs - 1"
proof -
  have "1 \<le> length xs" using assms(1) by (cases xs) auto
  then have "(of_nat (length xs) :: 32 word) - 1 = of_nat (length xs - 1)" by simp
  moreover have "unat (of_nat (length xs - 1) :: 32 word) = length xs - 1"
    using assms(2) by (simp add: unat_of_nat take_bit_nat_eq_self)
  ultimately show ?thesis by simp
qed

lemma sortList_stable:
  assumes "xs \<noteq> []" "length xs < 2 ^ 32"
  shows "\<exists>ys. sortList key xs = Inr ys \<and> mset ys = mset xs \<and>
           sorted_wrt (\<lambda>a b. key a \<ge> key b) ys \<and>
           (\<forall>c. filter (\<lambda>f. key f = c) ys = filter (\<lambda>f. key f = c) xs)"
proof -
  let ?i = "length xs - 1"
  have i: "?i < length xs" using assms(1) by (cases xs) auto
  have s: "sortList key xs = Inr (bubbleSortN key ?i xs)"
    using outerLoop_bubbleSortN [OF i] unat_count_minus_1 [OF assms] by (simp add: sortList_def)
  have "sorted_wrt (\<lambda>a b. key b \<le> key a) (bubbleSortN key ?i xs)"
    using i by (intro bubbleSortN_sorted) simp_all
  with s show ?thesis by simp
qed

lemma sortList_empty: "sortList key [] = Inl NullDereference"
  by (simp add: sortList_def outerLoop.simps compareSwap_def unat_gt_0)

text \<open>
  For every list that is not empty (and shorter than \<open>2 ^ 32\<close>, the range of the
  counter), both rankings return a permutation of the list in descending order of the
  key, in which records with the same key keep their order.
\<close>

theorem ranking_stable_nonempty:
  assumes "fs \<noteq> []" and "length fs < 2 ^ 32"
  shows "(\<exists>ys. sortForDeepest fs = Inr ys \<and> mset ys = mset fs \<and>
            sorted_wrt (\<lambda>a b. deepest a \<ge> deepest b) ys \<and>
            (\<forall>c. filter (\<lambda>f. deepest f = c) ys = filter (\<lambda>f. deepest f = c) fs)) \<and>
         (\<exists>ys. sortForOwn fs = Inr ys \<and> mset ys = mset fs \<and>
            sorted_wrt (\<lambda>a b. ownStack a \<ge> ownStack b) ys \<and>
            (\<forall>c. filter (\<lambda>f. ownStack f = c) ys = filter (\<lambda>f. ownStack f = c) fs))"
  unfolding sortForDeepest_def sortForOwn_def
  using sortList_stable [OF assms, of deepest] sortList_stable [OF assms, of ownStack]
  by blast

theorem ranking_stable_nonempty_witness:
  "tiedRanking \<noteq> [] \<and> length tiedRanking < 2 ^ 32 \<and>
   (\<exists>ys. sortForDeepest tiedRanking = Inr ys \<and>
      filter (\<lambda>f. deepest f = 24) ys = [tiedRanking ! 0, tiedRanking ! 2] \<and>
      filter (\<lambda>f. deepest f = 40) ys = [tiedRanking ! 1, tiedRanking ! 3])"
proof -
  have h1: "tiedRanking \<noteq> []" by (simp add: tiedRanking_def)
  have h2: "length tiedRanking < 2 ^ 32" by (simp add: tiedRanking_def)
  from ranking_stable_nonempty [OF h1 h2] obtain ys where
    r: "sortForDeepest tiedRanking = Inr ys"
    and f: "\<forall>c. filter (\<lambda>f. deepest f = c) ys = filter (\<lambda>f. deepest f = c) tiedRanking"
    by blast
  from f have "filter (\<lambda>f. deepest f = 24) ys = filter (\<lambda>f. deepest f = 24) tiedRanking"
    "filter (\<lambda>f. deepest f = 40) ys = filter (\<lambda>f. deepest f = 40) tiedRanking"
    by blast+
  then have "filter (\<lambda>f. deepest f = 24) ys = [tiedRanking ! 0, tiedRanking ! 2]"
    "filter (\<lambda>f. deepest f = 40) ys = [tiedRanking ! 1, tiedRanking ! 3]"
    by (simp_all add: tiedRanking_def)
  with r h1 h2 show ?thesis by blast
qed

text \<open>
  Claim C4.  The rankings do not handle every list: for the empty list \<open>count - 1\<close>
  wraps around to \<open>0xFFFFFFFF\<close>, the outer loop is entered, and its first statement
  reads \<open>firstFunctionInfo->deepest\<close> (or \<open>->ownStack\<close>) through the null pointer.
\<close>

theorem ranking_empty_list_null_dereference:
  "sortForDeepest [] = Inl NullDereference \<and> sortForOwn [] = Inl NullDereference"
  by (simp add: sortForDeepest_def sortForOwn_def sortList_empty)

section \<open>Bounds on the resolved values\<close>

lemma finishedOwn_cong:
  assumes "length fs' = length fs"
    and "\<And>g. g < length fs \<Longrightarrow> ownStack (fs' ! g) = ownStack (fs ! g)"
    and "\<And>g. g < length fs \<Longrightarrow>
           (isProcessed (fs' ! g) \<and> g \<notin> busy') = (isProcessed (fs ! g) \<and> g \<notin> busy)"
  shows "finishedOwn fs' busy' = finishedOwn fs busy"
proof -
  have "{g. g < length fs' \<and> isProcessed (fs' ! g) \<and> g \<notin> busy'}
      = {g. g < length fs \<and> isProcessed (fs ! g) \<and> g \<notin> busy}"
    using assms(1,3) by auto
  then show ?thesis
    unfolding finishedOwn_def using assms(2) by (auto intro: sum.cong)
qed

lemma finishedOwn_finish:
  assumes "length fs' = length fs" "t < length fs" "t \<notin> busy" "isProcessed (fs' ! t)"
    and "\<And>g. g < length fs \<Longrightarrow> ownStack (fs' ! g) = ownStack (fs ! g)"
    and "\<And>g. g < length fs \<Longrightarrow> g \<noteq> t \<Longrightarrow> isProcessed (fs' ! g) = isProcessed (fs ! g)"
  shows "finishedOwn fs' busy = finishedOwn fs (insert t busy) + unat (ownStack (fs ! t))"
proof -
  let ?A = "{g. g < length fs \<and> isProcessed (fs ! g) \<and> g \<notin> insert t busy}"
  have eq: "{g. g < length fs' \<and> isProcessed (fs' ! g) \<and> g \<notin> busy} = insert t ?A"
    using assms(1,2,3,4,6) by auto
  have fin: "finite ?A" by simp
  have nin: "t \<notin> ?A" by simp
  have "finishedOwn fs' busy = (\<Sum>g \<in> insert t ?A. unat (ownStack (fs' ! g)))"
    unfolding finishedOwn_def eq ..
  also have "\<dots> = (\<Sum>g \<in> insert t ?A. unat (ownStack (fs ! g)))"
    using assms(2,5) by (intro sum.cong) auto
  also have "\<dots> = unat (ownStack (fs ! t)) + (\<Sum>g \<in> ?A. unat (ownStack (fs ! g)))"
    using fin nin by (rule sum.insert)
  finally show ?thesis by (simp add: finishedOwn_def)
qed

lemma totalOwn_nth: "totalOwn fs = (\<Sum>g < length fs. unat (ownStack (fs ! g)))"
proof -
  have "totalOwn fs = (\<Sum>g = 0 ..< length fs. map (\<lambda>f. unat (ownStack f)) fs ! g)"
    unfolding totalOwn_def by (simp add: sum_list_sum_nth)
  also have "\<dots> = (\<Sum>g = 0 ..< length fs. unat (ownStack (fs ! g)))"
    by (intro sum.cong) auto
  finally show ?thesis by (simp add: atLeast0LessThan)
qed

lemma finishedOwn_le_total: "finishedOwn fs busy \<le> totalOwn fs"
  unfolding finishedOwn_def totalOwn_nth
  by (rule sum_mono2) auto

lemma totalOwn_sameStatic:
  assumes "sameStatic fs fs'"
  shows "totalOwn fs' = totalOwn fs"
proof -
  have "length fs' = length fs" using assms by (rule sameStatic_length)
  moreover have "\<And>g. g < length fs \<Longrightarrow> ownStack (fs' ! g) = ownStack (fs ! g)"
    using sameStatic_fields [OF assms] by simp
  ultimately show ?thesis unfolding totalOwn_nth by (auto intro: sum.cong)
qed

lemma bounded_mark:
  assumes b: "bounded fs busy" and t: "t < length fs" and np: "\<not> isProcessed (fs ! t)"
  shows "bounded (fs[t := (fs ! t)\<lparr>isProcessed := True\<rparr>]) (insert t busy)"
proof -
  let ?fs1 = "fs[t := (fs ! t)\<lparr>isProcessed := True\<rparr>]"
  have f: "finishedOwn ?fs1 (insert t busy) = finishedOwn fs busy"
    using np t by (intro finishedOwn_cong) (auto simp: nth_list_update)
  have d: "\<And>g. g < length fs \<Longrightarrow> deepest (?fs1 ! g) = deepest (fs ! g)"
    using t by (simp add: nth_list_update)
  show ?thesis
    unfolding bounded_def f using b by (auto simp: bounded_def d nth_list_update)
qed

lemma bounded_raise:
  assumes b: "bounded fs busy" and t: "t < length fs" "t \<in> busy"
    and v: "unat v \<le> finishedOwn fs busy"
  shows "bounded (fs[t := (fs ! t)\<lparr>deepest := v\<rparr>]) busy"
proof -
  let ?fs1 = "fs[t := (fs ! t)\<lparr>deepest := v\<rparr>]"
  have f: "finishedOwn ?fs1 busy = finishedOwn fs busy"
    using t by (intro finishedOwn_cong) (auto simp: nth_list_update)
  show ?thesis
    unfolding bounded_def f using b t v by (auto simp: bounded_def nth_list_update)
qed

lemma bounded_finish:
  assumes b: "bounded fs (insert t busy)" and t: "t < length fs" "t \<notin> busy"
    and p: "isProcessed (fs ! t)" and tot: "totalOwn fs < 2 ^ 32"
  shows "bounded (fs[t := (fs ! t)\<lparr>deepest := deepest (fs ! t) + ownStack (fs ! t)\<rparr>]) busy"
proof -
  let ?d = "deepest (fs ! t)" and ?o = "ownStack (fs ! t)"
  let ?fs' = "fs[t := (fs ! t)\<lparr>deepest := ?d + ?o\<rparr>]"
  have f: "finishedOwn ?fs' busy = finishedOwn fs (insert t busy) + unat ?o"
    using t p by (intro finishedOwn_finish) (auto simp: nth_list_update)
  have s: "sameStatic fs ?fs'" using t(1) by (rule sameStatic_update_deepest)
  have "finishedOwn ?fs' busy \<le> totalOwn ?fs'" by (rule finishedOwn_le_total)
  then have le: "finishedOwn fs (insert t busy) + unat ?o < 2 ^ 32"
    using tot totalOwn_sameStatic [OF s] f by simp
  have dt: "unat ?d \<le> finishedOwn fs (insert t busy)" using b t(1) by (simp add: bounded_def)
  then have "unat ?d + unat ?o < 2 ^ 32" using le by simp
  then have add: "unat (?d + ?o) = unat ?d + unat ?o" by (simp add: unat_word_ariths(1))
  show ?thesis
    unfolding bounded_def
  proof (intro conjI allI impI)
    fix g assume g: "g < length ?fs'"
    show "unat (deepest (?fs' ! g)) \<le> finishedOwn ?fs' busy"
    proof (cases "g = t")
      case True
      then show ?thesis using t(1) dt add f by simp
    next
      case False
      then have "unat (deepest (?fs' ! g)) \<le> finishedOwn fs (insert t busy)"
        using b g by (simp add: bounded_def)
      then show ?thesis using f by simp
    qed
  next
    fix g assume g: "g < length ?fs'" "isProcessed (?fs' ! g)" "g \<notin> busy"
    show "ownStack (?fs' ! g) \<le> deepest (?fs' ! g)"
    proof (cases "g = t")
      case True
      then show ?thesis using t(1) add by (simp add: word_le_nat_alt)
    next
      case False
      then show ?thesis using b g by (simp add: bounded_def)
    qed
  qed
qed

lemma resolver_bounded:
  "\<forall>busy fs' out' v. getDeepestStackUsage n fs out t = Some (fs', out', v) \<longrightarrow>
     totalOwn fs < 2 ^ 32 \<longrightarrow> (\<forall>g \<in> busy. g < length fs \<and> isProcessed (fs ! g)) \<longrightarrow>
     bounded fs busy \<longrightarrow> bounded fs' busy"
  "\<forall>busy fs' out'. jumpLoop n fs out t as = Some (fs', out') \<longrightarrow>
     totalOwn fs < 2 ^ 32 \<longrightarrow> (\<forall>g \<in> busy. g < length fs \<and> isProcessed (fs ! g)) \<longrightarrow>
     t \<in> busy \<longrightarrow> bounded fs busy \<longrightarrow> bounded fs' busy"
proof (induction n fs out t and n fs out t as rule: getDeepestStackUsage_jumpLoop.induct)
  case (1 fs out target)
  then show ?case by simp
next
  case (2 n fs out target)
  show ?case
  proof (intro allI impI)
    fix busy fs' out' v
    assume r: "getDeepestStackUsage (Suc n) fs out target = Some (fs', out', v)"
      and tot: "totalOwn fs < 2 ^ 32"
      and busy: "\<forall>g \<in> busy. g < length fs \<and> isProcessed (fs ! g)"
      and b: "bounded fs busy"
    from r have lt: "target < length fs" by (auto split: if_splits)
    show "bounded fs' busy"
    proof (cases "isProcessed (fs ! target)")
      case True
      with r lt b show ?thesis by auto
    next
      case False
      let ?fs1 = "fs[target := (fs ! target)\<lparr>isProcessed := True\<rparr>]"
      from r lt False obtain fs2 where
        l: "jumpLoop n ?fs1 out target (jumpsTo (fs ! target)) = Some (fs2, out')" and
        fs': "fs' = fs2[target := (fs2 ! target)\<lparr>deepest := deepest (fs2 ! target) + ownStack (fs2 ! target)\<rparr>]"
        by (auto split: option.splits simp: Let_def)
      have nb: "target \<notin> busy" using busy False by auto
      have s1: "sameStatic fs ?fs1" using lt by (rule sameStatic_update_processed)
      have tot1: "totalOwn ?fs1 < 2 ^ 32" using tot totalOwn_sameStatic [OF s1] by simp
      have busy1: "\<forall>g \<in> insert target busy. g < length ?fs1 \<and> isProcessed (?fs1 ! g)"
        using busy lt by (auto simp: nth_list_update)
      have b1: "bounded ?fs1 (insert target busy)" using b lt False by (rule bounded_mark)
      from 2 [OF _ False] lt l tot1 busy1 b1
      have b2: "bounded fs2 (insert target busy)" by (meson insertI1 not_le)
      have fb: "frameBut target ?fs1 fs2"
        using resolver_frame(2) l lt by (metis length_list_update nth_list_update_eq
            select_convs(8) surjective update_convs(8))
      then have len2: "length fs2 = length fs" and p2: "isProcessed (fs2 ! target)"
        and s2: "sameStatic ?fs1 fs2"
        by (auto simp: frameBut_def dest: sameStatic_length)
      have tot2: "totalOwn fs2 < 2 ^ 32" using tot1 totalOwn_sameStatic [OF s2] by simp
      show ?thesis
        unfolding fs' using b2 _ nb p2 tot2 by (rule bounded_finish) (simp add: len2 lt)
    qed
  qed
next
  case (3 n fs out target)
  then show ?case by simp
next
  case (4 n fs out target a rest)
  show ?case
  proof (intro allI impI)
    fix busy fs' out'
    assume r: "jumpLoop n fs out target (a # rest) = Some (fs', out')"
      and tot: "totalOwn fs < 2 ^ 32"
      and busy: "\<forall>g \<in> busy. g < length fs \<and> isProcessed (fs ! g)"
      and tb: "target \<in> busy"
      and b: "bounded fs busy"
    from busy tb have lt: "target < length fs" and pt: "isProcessed (fs ! target)" by auto
    show "bounded fs' busy"
    proof (cases "findFunctionByAddress fs a")
      case None
      with r have "jumpLoop n fs (out @ [(name (fs ! target), a)]) target rest = Some (fs', out')"
        by simp
      with 4(1) [OF None] tot busy tb b show ?thesis by meson
    next
      case (Some j)
      from r Some obtain fs1 out1 v where
        g: "getDeepestStackUsage n fs out j = Some (fs1, out1, v)" and
        l: "jumpLoop n (if deepest (fs1 ! target) < v
               then fs1[target := (fs1 ! target)\<lparr>deepest := v\<rparr>] else fs1) out1 target rest
             = Some (fs', out')"
        by (auto split: option.splits)
      let ?fs2 = "if deepest (fs1 ! target) < v
               then fs1[target := (fs1 ! target)\<lparr>deepest := v\<rparr>] else fs1"
      from 4(2) [OF Some] g tot busy b have b1: "bounded fs1 busy" by meson
      from resolver_frame(1) g have j: "j < length fs" and f1: "frame fs fs1"
        and v: "v = deepest (fs1 ! j)" by blast+
      have len1: "length fs1 = length fs" and s1: "sameStatic fs fs1"
        using f1 by (auto simp: frame_def dest: sameStatic_length)
      have keep: "\<And>g. g \<in> busy \<Longrightarrow> fs1 ! g = fs ! g"
        using f1 busy by (auto simp: frame_def)
      have "unat v \<le> finishedOwn fs1 busy" using b1 j len1 v by (simp add: bounded_def)
      then have b2: "bounded ?fs2 busy"
        using b1 lt tb len1 by (auto intro: bounded_raise)
      have s2: "sameStatic fs1 ?fs2" using lt len1 by (simp add: sameStatic_update_deepest)
      have tot2: "totalOwn ?fs2 < 2 ^ 32"
        using tot totalOwn_sameStatic [OF s1] totalOwn_sameStatic [OF s2] by simp
      have busy2: "\<forall>g \<in> busy. g < length ?fs2 \<and> isProcessed (?fs2 ! g)"
      proof
        fix g assume gb: "g \<in> busy"
        then have "g < length fs" "isProcessed (fs1 ! g)" using busy keep by auto
        then show "g < length ?fs2 \<and> isProcessed (?fs2 ! g)"
          using len1 by (cases "g = target") (auto simp: nth_list_update)
      qed
      from 4(3) [OF Some g refl refl] l tot2 busy2 tb b2 show ?thesis by meson
    qed
  qed
qed

lemma bounded_fresh:
  assumes "\<forall>f \<in> set fs. \<not> isProcessed f \<and> deepest f = 0"
  shows "bounded fs {}"
  using assms by (auto simp: bounded_def)

lemma resolveLoop_bounded:
  "\<forall>i \<in> set is. i < length fs \<Longrightarrow> totalOwn fs < 2 ^ 32 \<Longrightarrow> bounded fs {} \<Longrightarrow>
   resolveLoop is fs out = Some (fs', out') \<Longrightarrow>
     bounded fs' {} \<and> sameStatic fs fs' \<and>
     (\<forall>g < length fs. isProcessed (fs ! g) \<or> g \<in> set is \<longrightarrow> isProcessed (fs' ! g))"
proof (induction "is" arbitrary: fs out)
  case Nil
  then show ?case by simp
next
  case (Cons i "is")
  from Cons.prems(4) obtain fs1 out1 v where
    g: "getDeepestStackUsage (Suc (length fs)) fs out i = Some (fs1, out1, v)" and
    l: "resolveLoop is fs1 out1 = Some (fs', out')"
    by (auto split: option.splits)
  from resolver_frame(1) g have f1: "frame fs fs1" and pi: "isProcessed (fs1 ! i)" by blast+
  then have s1: "sameStatic fs fs1" and len1: "length fs1 = length fs"
    by (auto simp: frame_def dest: sameStatic_length)
  have b1: "bounded fs1 {}"
    using resolver_bounded(1) g Cons.prems(2,3) by (meson empty_iff)
  have tot1: "totalOwn fs1 < 2 ^ 32" using Cons.prems(2) totalOwn_sameStatic [OF s1] by simp
  have is1: "\<forall>i \<in> set is. i < length fs1" using Cons.prems(1) len1 by simp
  from Cons.IH [OF is1 tot1 b1 l]
  have r: "bounded fs' {}" "sameStatic fs1 fs'"
    "\<forall>g < length fs1. isProcessed (fs1 ! g) \<or> g \<in> set is \<longrightarrow> isProcessed (fs' ! g)"
    by auto
  have "\<forall>g < length fs. isProcessed (fs ! g) \<or> g \<in> set (i # is) \<longrightarrow> isProcessed (fs' ! g)"
  proof (intro allI impI)
    fix g assume g: "g < length fs" "isProcessed (fs ! g) \<or> g \<in> set (i # is)"
    then have "isProcessed (fs1 ! g) \<or> g \<in> set is"
      using f1 pi by (auto simp: frame_def)
    with r(3) g(1) len1 show "isProcessed (fs' ! g)" by auto
  qed
  with r(1) sameStatic_trans [OF s1 r(2)] show ?case by simp
qed

text \<open>
  Claim C5, as amended.  On a freshly built graph (no record marked, every \<open>deepest\<close>
  still 0) whose frame sizes add up to less than \<open>2 ^ 32\<close>, the resolution pass returns and
  leaves every function with \<open>deepest\<close> at least its \<open>ownStack\<close>.
\<close>

theorem deepest_at_least_own:
  assumes "\<forall>f \<in> set fs. \<not> isProcessed f \<and> deepest f = 0"
    and "totalOwn fs < 2 ^ 32"
  shows "\<exists>fs' out'. resolveAll fs out = Some (fs', out') \<and> length fs' = length fs \<and>
           (\<forall>g < length fs. ownStack (fs' ! g) = ownStack (fs ! g) \<and>
                              ownStack (fs' ! g) \<le> deepest (fs' ! g))"
proof -
  from resolveAll_returns obtain fs' out' where r: "resolveAll fs out = Some (fs', out')"
    by blast
  then have l: "resolveLoop [0 ..< length fs] fs out = Some (fs', out')"
    by (simp add: resolveAll_def)
  have "\<forall>i \<in> set [0 ..< length fs]. i < length fs" by simp
  from resolveLoop_bounded [OF this assms(2) bounded_fresh [OF assms(1)] l]
  have b: "bounded fs' {}" and s: "sameStatic fs fs'"
    and p: "\<forall>g < length fs. isProcessed (fs' ! g)" by auto
  have len: "length fs' = length fs" using s by (rule sameStatic_length)
  have "\<forall>g < length fs. ownStack (fs' ! g) = ownStack (fs ! g) \<and>
                              ownStack (fs' ! g) \<le> deepest (fs' ! g)"
    using b p len sameStatic_fields [OF s] by (simp add: bounded_def)
  with r len show ?thesis by blast
qed

theorem deepest_below_own_counterexample:
  "resolveAll [wrapA, wrapB] []
     = Some ([wrapA\<lparr>deepest := 0, isProcessed := True\<rparr>,
              wrapB\<lparr>deepest := 0x80000000, isProcessed := True\<rparr>], []) \<and>
   deepest (wrapA\<lparr>deepest := 0, isProcessed := True\<rparr>)
     < ownStack (wrapA\<lparr>deepest := 0, isProcessed := True\<rparr>)"
  by (simp add: resolveAll_def wrapA_def wrapB_def upt_rec)

theorem deepest_at_least_own_witness:
  "resolveAll [mutualA, mutualB] []
     = Some ([mutualA\<lparr>deepest := 32, isProcessed := True\<rparr>,
              mutualB\<lparr>deepest := 16, isProcessed := True\<rparr>], []) \<and>
   ownStack (mutualA\<lparr>deepest := 32, isProcessed := True\<rparr>)
     \<le> deepest (mutualA\<lparr>deepest := 32, isProcessed := True\<rparr>)"
proof -
  have h1: "\<forall>f \<in> set [mutualA, mutualB]. \<not> isProcessed f \<and> deepest f = 0"
    by (simp add: mutualA_def mutualB_def)
  have h2: "totalOwn [mutualA, mutualB] < 2 ^ 32"
    by (simp add: totalOwn_def mutualA_def mutualB_def)
  have ev: "resolveAll [mutualA, mutualB] []
     = Some ([mutualA\<lparr>deepest := 32, isProcessed := True\<rparr>,
              mutualB\<lparr>deepest := 16, isProcessed := True\<rparr>], [])"
    by (simp add: resolveAll_def mutualA_def mutualB_def upt_rec)
  from deepest_at_least_own [OF h1 h2, of "[]"] ev
  have "ownStack ([mutualA\<lparr>deepest := 32, isProcessed := True\<rparr>,
              mutualB\<lparr>deepest := 16, isProcessed := True\<rparr>] ! 0)
       \<le> deepest ([mutualA\<lparr>deepest := 32, isProcessed := True\<rparr>,
              mutualB\<lparr>deepest := 16, isProcessed := True\<rparr>] ! 0)"
    by auto
  with ev show ?thesis by simp
qed

section \<open>Acyclic call graphs\<close>

lemma acyclicBy_sameStatic:
  assumes "acyclicBy rank fs" "sameStatic fs fs'"
  shows "acyclicBy rank fs'"
  unfolding acyclicBy_def
proof (intro allI impI ballI)
  fix g a assume g: "g < length fs'" and a: "a \<in> set (jumpsTo (fs' ! g))"
  have len: "length fs' = length fs" using assms(2) by (rule sameStatic_length)
  have "jumpsTo (fs' ! g) = jumpsTo (fs ! g)"
    using sameStatic_fields [OF assms(2)] g len by simp
  with assms(1) g a len show "\<exists>h. findFunctionByAddress fs' a = Some h \<and> rank h < rank g"
    by (simp add: acyclicBy_def find_sameStatic [OF assms(2)])
qed

lemma settled_cong:
  assumes st: "settled fs g" and g: "g < length fs" and s: "sameStatic fs fs'"
    and same: "fs' ! g = fs ! g"
    and tg: "\<And>a h. a \<in> set (jumpsTo (fs ! g)) \<Longrightarrow> findFunctionByAddress fs a = Some h \<Longrightarrow>
               fs' ! h = fs ! h"
  shows "settled fs' g"
proof -
  have f: "\<And>a. findFunctionByAddress fs' a = findFunctionByAddress fs a"
    using s by (rule find_sameStatic)
  have "calleeDepths fs' g = calleeDepths fs g"
    unfolding calleeDepths_def same f
    by (rule map_cong) (auto split: option.splits dest: tg)
  moreover have "\<forall>a \<in> set (jumpsTo (fs ! g)).
      \<exists>h. findFunctionByAddress fs a = Some h \<and> isProcessed (fs' ! h)"
    using st tg unfolding settled_def by (metis)
  ultimately show ?thesis
    using st unfolding settled_def same f by simp
qed

lemma settled_frame:
  assumes "settled fs g" "g < length fs" "frame fs fs'"
  shows "settled fs' g"
proof (rule settled_cong [OF assms(1,2)])
  show "sameStatic fs fs'" using assms(3) by (simp add: frame_def)
  show "fs' ! g = fs ! g" using assms by (simp add: frame_def settled_def)
next
  fix a h assume "a \<in> set (jumpsTo (fs ! g))" "findFunctionByAddress fs a = Some h"
  moreover from this have "h < length fs" by (simp add: find_Some_bound)
  ultimately show "fs' ! h = fs ! h"
    using assms(1,3) by (fastforce simp: frame_def settled_def)
qed

lemma settled_update_other:
  assumes st: "settled fs g" and g: "g < length fs" and t: "t < length fs" and ne: "g \<noteq> t"
    and nt: "\<And>a. a \<in> set (jumpsTo (fs ! g)) \<Longrightarrow> findFunctionByAddress fs a \<noteq> Some t"
    and s: "sameStatic fs (fs[t := x])"
  shows "settled (fs[t := x]) g"
proof (rule settled_cong [OF st g s])
  show "fs[t := x] ! g = fs ! g" using ne by simp
next
  fix a h assume "a \<in> set (jumpsTo (fs ! g))" "findFunctionByAddress fs a = Some h"
  then have "h \<noteq> t" using nt by auto
  then show "fs[t := x] ! h = fs ! h" by simp
qed

lemma fold_max_zero:
  fixes xs :: "32 word list"
  assumes "xs \<noteq> []"
  shows "fold max xs 0 = Max (set xs)"
proof -
  have "fold max xs 0 = Max (set (0 # xs))" by (simp only: Max.set_eq_fold)
  also have "\<dots> = max 0 (Max (set xs))" using assms by simp
  finally show ?thesis by (simp add: max_def)
qed

lemma restOk_mono: "r \<le> r' \<Longrightarrow> restOk rank r' fs \<Longrightarrow> restOk rank r fs"
  by (auto simp: restOk_def)

lemma restOk_frame:
  assumes ok: "restOk rank r fs" and f: "frame fs fs'"
    and new: "\<forall>g < length fs. newlySettled rank r' fs fs' g"
  shows "restOk rank r fs'"
  unfolding restOk_def
proof (intro allI impI)
  fix g assume g: "g < length fs'" "rank g < r"
  have len: "length fs' = length fs" using f by (auto simp: frame_def dest: sameStatic_length)
  from ok g len consider "settled fs g" | "\<not> isProcessed (fs ! g)" "deepest (fs ! g) = 0"
    by (auto simp: restOk_def)
  then show "settled fs' g \<or> \<not> isProcessed (fs' ! g) \<and> deepest (fs' ! g) = 0"
  proof cases
    case 1
    then show ?thesis using settled_frame [OF _ _ f] g len by simp
  next
    case 2
    with new g len have "fs' ! g = fs ! g \<or> settled fs' g"
      by (auto simp: newlySettled_def)
    with 2 show ?thesis by auto
  qed
qed

lemma not_target:
  assumes "acyclicBy rank fs" "g < length fs" "rank g \<le> rank t" "a \<in> set (jumpsTo (fs ! g))"
  shows "findFunctionByAddress fs a \<noteq> Some t"
proof
  assume "findFunctionByAddress fs a = Some t"
  moreover from assms(1,2,4) obtain h where "findFunctionByAddress fs a = Some h" "rank h < rank g"
    by (auto simp: acyclicBy_def)
  ultimately show False using assms(3) by simp
qed

lemma restOk_update:
  assumes ok: "restOk rank r fs" and r: "r \<le> rank t" and ac: "acyclicBy rank fs"
    and t: "t < length fs" and s: "sameStatic fs (fs[t := x])"
  shows "restOk rank r (fs[t := x])"
  unfolding restOk_def
proof (intro allI impI)
  fix g assume g: "g < length (fs[t := x])" "rank g < r"
  then have ne: "g \<noteq> t" and gl: "g < length fs" using r by auto
  from ok g consider "settled fs g" | "\<not> isProcessed (fs ! g)" "deepest (fs ! g) = 0"
    by (auto simp: restOk_def)
  then show "settled (fs[t := x]) g \<or>
      \<not> isProcessed (fs[t := x] ! g) \<and> deepest (fs[t := x] ! g) = 0"
  proof cases
    case 1
    have "settled (fs[t := x]) g"
      using 1 gl t ne _ s
    proof (rule settled_update_other)
      fix a assume "a \<in> set (jumpsTo (fs ! g))"
      with ac gl show "findFunctionByAddress fs a \<noteq> Some t"
        using g(2) r by (intro not_target [where rank = rank and g = g]) auto
    qed
    then show ?thesis ..
  next
    case 2
    then show ?thesis using ne by simp
  qed
qed

lemma settled_frameBut:
  assumes st: "settled fs g" and g: "g < length fs" and fb: "frameBut t fs fs'" and ne: "g \<noteq> t"
    and nt: "\<And>a. a \<in> set (jumpsTo (fs ! g)) \<Longrightarrow> findFunctionByAddress fs a \<noteq> Some t"
  shows "settled fs' g"
proof (rule settled_cong [OF st g])
  show "sameStatic fs fs'" using fb by (simp add: frameBut_def)
  show "fs' ! g = fs ! g" using st g fb ne by (simp add: frameBut_def settled_def)
next
  fix a h assume a: "a \<in> set (jumpsTo (fs ! g))" "findFunctionByAddress fs a = Some h"
  then have "h < length fs" "h \<noteq> t" using nt by (auto simp: find_Some_bound)
  moreover have "isProcessed (fs ! h)" using st a by (auto simp: settled_def)
  ultimately show "fs' ! h = fs ! h" using fb by (simp add: frameBut_def)
qed

lemma resolver_acyclic:
  "\<forall>fs' out' v. getDeepestStackUsage n fs out t = Some (fs', out', v) \<longrightarrow>
     acyclicBy rank fs \<longrightarrow> restOk rank (Suc (rank t)) fs \<longrightarrow>
     (\<forall>g < length fs. newlySettled rank (Suc (rank t)) fs fs' g) \<and> settled fs' t \<and> out' = out"
  "\<forall>fs' out'. jumpLoop n fs out t as = Some (fs', out') \<longrightarrow>
     acyclicBy rank fs \<longrightarrow> t < length fs \<longrightarrow> isProcessed (fs ! t) \<longrightarrow>
     set as \<subseteq> set (jumpsTo (fs ! t)) \<longrightarrow> restOk rank (rank t) fs \<longrightarrow>
     (\<forall>g < length fs. g \<noteq> t \<longrightarrow> newlySettled rank (rank t) fs fs' g) \<and>
     deepest (fs' ! t) =
       fold max (map (\<lambda>a. case findFunctionByAddress fs a of None \<Rightarrow> 0
                          | Some h \<Rightarrow> deepest (fs' ! h)) as) (deepest (fs ! t)) \<and>
     (\<forall>a \<in> set as. \<exists>h. findFunctionByAddress fs a = Some h \<and> isProcessed (fs' ! h)) \<and>
     out' = out"
proof (induction n fs out t and n fs out t as rule: getDeepestStackUsage_jumpLoop.induct)
  case (1 fs out target)
  then show ?case by simp
next
  case (2 n fs out target)
  show ?case
  proof (intro allI impI)
    fix fs' out' v
    assume r: "getDeepestStackUsage (Suc n) fs out target = Some (fs', out', v)"
      and ac: "acyclicBy rank fs"
      and ok: "restOk rank (Suc (rank target)) fs"
    from r have lt: "target < length fs" by (auto split: if_splits)
    from ok lt have tcase: "settled fs target \<or>
        \<not> isProcessed (fs ! target) \<and> deepest (fs ! target) = 0"
      by (simp add: restOk_def)
    show "(\<forall>g < length fs. newlySettled rank (Suc (rank target)) fs fs' g) \<and>
        settled fs' target \<and> out' = out"
    proof (cases "isProcessed (fs ! target)")
      case True
      with r lt have "fs' = fs" "out' = out" by auto
      with True tcase show ?thesis by (simp add: newlySettled_def)
    next
      case False
      with tcase have d0: "deepest (fs ! target) = 0" by (auto simp: settled_def)
      let ?fs1 = "fs[target := (fs ! target)\<lparr>isProcessed := True\<rparr>]"
      from r lt False obtain fs2 where
        l: "jumpLoop n ?fs1 out target (jumpsTo (fs ! target)) = Some (fs2, out')" and
        fs': "fs' = fs2[target := (fs2 ! target)\<lparr>deepest := deepest (fs2 ! target) + ownStack (fs2 ! target)\<rparr>]"
        by (auto split: option.splits simp: Let_def)
      have lt1: "target < length ?fs1" and p1: "isProcessed (?fs1 ! target)" using lt by simp_all
      have s1: "sameStatic fs ?fs1" using lt by (rule sameStatic_update_processed)
      have ac1: "acyclicBy rank ?fs1" using ac s1 by (rule acyclicBy_sameStatic)
      have ok1: "restOk rank (rank target) ?fs1"
        using restOk_mono [OF _ ok, of "rank target"] _ ac lt s1
        by (rule restOk_update) simp_all
      have e1: "set (jumpsTo (fs ! target)) \<subseteq> set (jumpsTo (?fs1 ! target))"
        using lt by simp
      from 2 [OF _ False] lt l ac1 lt1 p1 e1 ok1
      have new2: "\<forall>g < length ?fs1. g \<noteq> target \<longrightarrow> newlySettled rank (rank target) ?fs1 fs2 g"
        and d2: "deepest (fs2 ! target) =
           fold max (map (\<lambda>a. case findFunctionByAddress ?fs1 a of None \<Rightarrow> 0
                          | Some h \<Rightarrow> deepest (fs2 ! h)) (jumpsTo (fs ! target)))
             (deepest (?fs1 ! target))"
        and p2: "\<forall>a \<in> set (jumpsTo (fs ! target)).
           \<exists>h. findFunctionByAddress ?fs1 a = Some h \<and> isProcessed (fs2 ! h)"
        and o: "out' = out"
        by (meson not_le)+
      have fb: "frameBut target ?fs1 fs2" using resolver_frame(2) l lt1 p1 by blast
      then have len2: "length fs2 = length fs" and pt2: "isProcessed (fs2 ! target)"
        and s12: "sameStatic ?fs1 fs2"
        by (auto simp: frameBut_def dest: sameStatic_length)
      have s2: "sameStatic fs fs2" using s1 s12 by (rule sameStatic_trans)
      have ac2: "acyclicBy rank fs2" using ac s2 by (rule acyclicBy_sameStatic)
      have s2': "sameStatic fs2 fs'"
        unfolding fs' using lt len2 by (intro sameStatic_update_deepest) simp
      have s': "sameStatic fs fs'" using s2 s2' by (rule sameStatic_trans)
      have f1: "\<And>a. findFunctionByAddress ?fs1 a = findFunctionByAddress fs a"
        using s1 by (rule find_sameStatic)
      have f2: "\<And>a. findFunctionByAddress fs2 a = findFunctionByAddress fs a"
        using s2 by (rule find_sameStatic)
      have f': "\<And>a. findFunctionByAddress fs' a = findFunctionByAddress fs a"
        using s' by (rule find_sameStatic)
      have edges': "jumpsTo (fs' ! target) = jumpsTo (fs ! target)"
        and own2: "ownStack (fs2 ! target) = ownStack (fs ! target)"
        and own': "ownStack (fs' ! target) = ownStack (fs ! target)"
        using sameStatic_fields [OF s' lt] sameStatic_fields [OF s2 lt] by simp_all
      have other: "\<And>h. h \<noteq> target \<Longrightarrow> fs' ! h = fs2 ! h" by (simp add: fs')
      have tne: "\<And>a h. a \<in> set (jumpsTo (fs ! target)) \<Longrightarrow>
          findFunctionByAddress fs a = Some h \<Longrightarrow> h \<noteq> target"
        using not_target [OF ac lt, of target] by auto
      \<comment> \<open>the record of \<open>target\<close> is settled\<close>
      have cd: "calleeDepths fs' target =
          map (\<lambda>a. case findFunctionByAddress ?fs1 a of None \<Rightarrow> 0
                          | Some h \<Rightarrow> deepest (fs2 ! h)) (jumpsTo (fs ! target))"
        unfolding calleeDepths_def edges' f' f1
        by (rule map_cong) (auto split: option.splits simp: other dest: tne)
      have "deepest (fs' ! target) = deepest (fs2 ! target) + ownStack (fs2 ! target)"
        using lt len2 by (simp add: fs')
      also have "\<dots> = ownStack (fs' ! target) + fold max (calleeDepths fs' target) 0"
        using d2 d0 lt by (simp add: cd own2 own')
      finally have dt: "deepest (fs' ! target)
          = ownStack (fs' ! target) + fold max (calleeDepths fs' target) 0" .
      have pt': "isProcessed (fs' ! target)" using pt2 lt len2 by (simp add: fs')
      have tp: "\<forall>a \<in> set (jumpsTo (fs' ! target)).
          \<exists>h. findFunctionByAddress fs' a = Some h \<and> isProcessed (fs' ! h)"
        unfolding edges' f'
      proof
        fix a assume a: "a \<in> set (jumpsTo (fs ! target))"
        with p2 obtain h where h: "findFunctionByAddress fs a = Some h" "isProcessed (fs2 ! h)"
          by (auto simp: f1)
        with a tne have "h \<noteq> target" by blast
        with h show "\<exists>h. findFunctionByAddress fs a = Some h \<and> isProcessed (fs' ! h)"
          by (auto simp: other)
      qed
      have st: "settled fs' target" using pt' tp dt by (simp add: settled_def)
      \<comment> \<open>the other records\<close>
      have "\<forall>g < length fs. newlySettled rank (Suc (rank target)) fs fs' g"
      proof (intro allI impI)
        fix g assume g: "g < length fs"
        show "newlySettled rank (Suc (rank target)) fs fs' g"
        proof (cases "g = target")
          case True
          then show ?thesis using st by (simp add: newlySettled_def)
        next
          case ne: False
          show ?thesis
            unfolding newlySettled_def
          proof
            assume "\<not> isProcessed (fs ! g)"
            then have "\<not> isProcessed (?fs1 ! g)" using ne by simp
            with new2 g ne have "fs2 ! g = ?fs1 ! g \<or> settled fs2 g \<and> rank g < rank target"
              by (simp add: newlySettled_def)
            then show "fs' ! g = fs ! g \<or> settled fs' g \<and> rank g < Suc (rank target)"
            proof
              assume "fs2 ! g = ?fs1 ! g"
              then show ?thesis using ne by (simp add: other)
            next
              assume a: "settled fs2 g \<and> rank g < rank target"
              have "settled fs' g"
                unfolding fs'
              proof (rule settled_update_other)
                show "settled fs2 g" using a ..
                show "g < length fs2" "target < length fs2" using g lt len2 by simp_all
                show "g \<noteq> target" by (rule ne)
                show "sameStatic fs2 (fs2[target := (fs2 ! target)
                    \<lparr>deepest := deepest (fs2 ! target) + ownStack (fs2 ! target)\<rparr>])"
                  using s2' by (simp add: fs')
              next
                fix a' assume "a' \<in> set (jumpsTo (fs2 ! g))"
                then show "findFunctionByAddress fs2 a' \<noteq> Some target"
                  using a g len2 by (intro not_target [OF ac2, where g = g]) auto
              qed
              with a show ?thesis by simp
            qed
          qed
        qed
      qed
      with st o show ?thesis by simp
    qed
  qed
next
  case (3 n fs out target)
  then show ?case by (simp add: newlySettled_def)
next
  case (4 n fs out target a rest)
  show ?case
  proof (intro allI impI)
    fix fs' out'
    assume r: "jumpLoop n fs out target (a # rest) = Some (fs', out')"
      and ac: "acyclicBy rank fs"
      and lt: "target < length fs" and pt: "isProcessed (fs ! target)"
      and sub: "set (a # rest) \<subseteq> set (jumpsTo (fs ! target))"
      and ok: "restOk rank (rank target) fs"
    from sub have ain: "a \<in> set (jumpsTo (fs ! target))" by simp
    with ac lt obtain j where Some: "findFunctionByAddress fs a = Some j"
      and rj: "rank j < rank target"
      by (auto simp: acyclicBy_def)
    from rj have jne: "j \<noteq> target" by auto
    from r Some obtain fs1 out1 v where
      g: "getDeepestStackUsage n fs out j = Some (fs1, out1, v)" and
      l: "jumpLoop n (if deepest (fs1 ! target) < v
             then fs1[target := (fs1 ! target)\<lparr>deepest := v\<rparr>] else fs1) out1 target rest
           = Some (fs', out')"
      by (auto split: option.splits)
    let ?fs2 = "if deepest (fs1 ! target) < v
             then fs1[target := (fs1 ! target)\<lparr>deepest := v\<rparr>] else fs1"
    have okj: "restOk rank (Suc (rank j)) fs" using rj ok by (intro restOk_mono [OF _ ok]) simp
    from 4(2) [OF Some] g ac okj
    have new1: "\<forall>g < length fs. newlySettled rank (Suc (rank j)) fs fs1 g"
      and stj: "settled fs1 j" and o1: "out1 = out"
      by meson+
    from resolver_frame(1) g have j: "j < length fs" and f1: "frame fs fs1"
      and v: "v = deepest (fs1 ! j)" by blast+
    have len1: "length fs1 = length fs" and s1: "sameStatic fs fs1"
      using f1 by (auto simp: frame_def dest: sameStatic_length)
    have t1: "fs1 ! target = fs ! target" using f1 lt pt by (simp add: frame_def)
    have ac1: "acyclicBy rank fs1" using ac s1 by (rule acyclicBy_sameStatic)
    have ok1: "restOk rank (rank target) fs1" using ok f1 new1 by (rule restOk_frame)
    have s12: "sameStatic fs1 ?fs2" using lt len1 by (simp add: sameStatic_update_deepest)
    have s2: "sameStatic fs ?fs2" using s1 s12 by (rule sameStatic_trans)
    have ac2: "acyclicBy rank ?fs2" using ac s2 by (rule acyclicBy_sameStatic)
    have len2: "length ?fs2 = length fs" using len1 by simp
    have lt2: "target < length ?fs2" using lt len2 by simp
    have p2: "isProcessed (?fs2 ! target)" using t1 pt lt len1 by simp
    have ok2: "restOk rank (rank target) ?fs2"
    proof (cases "deepest (fs1 ! target) < v")
      case True
      have "restOk rank (rank target) (fs1[target := (fs1 ! target)\<lparr>deepest := v\<rparr>])"
        using ok1 _ ac1 _ _
      proof (rule restOk_update)
        show "target < length fs1" using lt len1 by simp
        show "sameStatic fs1 (fs1[target := (fs1 ! target)\<lparr>deepest := v\<rparr>])"
          using lt len1 by (simp add: sameStatic_update_deepest)
      qed simp
      with True show ?thesis by simp
    next
      case False
      with ok1 show ?thesis by simp
    qed
    have e2: "jumpsTo (?fs2 ! target) = jumpsTo (fs ! target)"
      using sameStatic_fields [OF s2 lt] by simp
    have sub2: "set rest \<subseteq> set (jumpsTo (?fs2 ! target))" using sub e2 by simp
    have f2: "\<And>a. findFunctionByAddress ?fs2 a = findFunctionByAddress fs a"
      using s2 by (rule find_sameStatic)
    from 4(3) [OF Some g refl refl] l ac2 lt2 p2 sub2 ok2
    have new': "\<forall>g < length ?fs2. g \<noteq> target \<longrightarrow> newlySettled rank (rank target) ?fs2 fs' g"
      and d': "deepest (fs' ! target) =
         fold max (map (\<lambda>a. case findFunctionByAddress ?fs2 a of None \<Rightarrow> 0
                        | Some h \<Rightarrow> deepest (fs' ! h)) rest) (deepest (?fs2 ! target))"
      and p': "\<forall>a \<in> set rest. \<exists>h. findFunctionByAddress ?fs2 a = Some h \<and> isProcessed (fs' ! h)"
      and o': "out' = out1"
      by meson+
    have fb: "frameBut target ?fs2 fs'" using resolver_frame(2) l lt2 p2 by blast
    have other2: "\<And>h. h \<noteq> target \<Longrightarrow> ?fs2 ! h = fs1 ! h" by simp
    have pj1: "isProcessed (fs1 ! j)" using stj by (simp add: settled_def)
    have j': "fs' ! j = fs1 ! j"
      using fb j jne pj1 len2 other2 [OF jne] unfolding frameBut_def by metis
    \<comment> \<open>the value accumulated for \<open>target\<close>\<close>
    have "deepest (?fs2 ! target) = max v (deepest (fs ! target))"
      using t1 lt len1 by (auto simp: max_def)
    then have dd: "deepest (?fs2 ! target) = max (deepest (fs' ! j)) (deepest (fs ! target))"
      by (simp add: v j')
    have D: "deepest (fs' ! target) =
       fold max (map (\<lambda>a. case findFunctionByAddress fs a of None \<Rightarrow> 0
                          | Some h \<Rightarrow> deepest (fs' ! h)) (a # rest)) (deepest (fs ! target))"
      using d' by (simp add: f2 dd Some)
    \<comment> \<open>every edge leads to a marked record\<close>
    have C: "\<forall>x \<in> set (a # rest). \<exists>h. findFunctionByAddress fs x = Some h \<and> isProcessed (fs' ! h)"
      using p' Some pj1 j' by (auto simp: f2)
    \<comment> \<open>the other records\<close>
    have A: "\<forall>g < length fs. g \<noteq> target \<longrightarrow> newlySettled rank (rank target) fs fs' g"
    proof (intro allI impI)
      fix g assume gl: "g < length fs" and ne: "g \<noteq> target"
      show "newlySettled rank (rank target) fs fs' g"
        unfolding newlySettled_def
      proof
        assume np: "\<not> isProcessed (fs ! g)"
        with new1 gl have "fs1 ! g = fs ! g \<or> settled fs1 g \<and> rank g < Suc (rank j)"
          by (simp add: newlySettled_def)
        then show "fs' ! g = fs ! g \<or> settled fs' g \<and> rank g < rank target"
        proof
          assume same: "fs1 ! g = fs ! g"
          then have "\<not> isProcessed (?fs2 ! g)" using np other2 [OF ne] by simp
          with new' gl ne len2 have "fs' ! g = ?fs2 ! g \<or> settled fs' g \<and> rank g < rank target"
            by (simp add: newlySettled_def)
          then show ?thesis using same other2 [OF ne] by auto
        next
          assume a: "settled fs1 g \<and> rank g < Suc (rank j)"
          then have rg: "rank g < rank target" using rj by simp
          have nt1: "\<And>a'. a' \<in> set (jumpsTo (fs1 ! g)) \<Longrightarrow> findFunctionByAddress fs1 a' \<noteq> Some target"
            using rg gl len1 by (intro not_target [OF ac1, where g = g]) auto
          have st2: "settled ?fs2 g"
          proof (cases "deepest (fs1 ! target) < v")
            case True
            have "settled (fs1[target := (fs1 ! target)\<lparr>deepest := v\<rparr>]) g"
            proof (rule settled_update_other)
              show "settled fs1 g" using a ..
              show "g < length fs1" "target < length fs1" using gl lt len1 by simp_all
              show "g \<noteq> target" by (rule ne)
              show "sameStatic fs1 (fs1[target := (fs1 ! target)\<lparr>deepest := v\<rparr>])"
                using lt len1 by (simp add: sameStatic_update_deepest)
            qed (rule nt1)
            with True show ?thesis by simp
          next
            case False
            with a show ?thesis by simp
          qed
          have e: "jumpsTo (?fs2 ! g) = jumpsTo (fs1 ! g)" using other2 [OF ne] by simp
          have f12: "\<And>a. findFunctionByAddress ?fs2 a = findFunctionByAddress fs1 a"
            using s12 by (rule find_sameStatic)
          have "settled fs' g"
            using st2 _ fb ne
          proof (rule settled_frameBut)
            show "g < length ?fs2" using gl len2 by simp
          next
            fix a' assume "a' \<in> set (jumpsTo (?fs2 ! g))"
            then show "findFunctionByAddress ?fs2 a' \<noteq> Some target"
              unfolding e f12 by (rule nt1)
          qed
          with rg show ?thesis by simp
        qed
      qed
    qed
    from A D C o' o1
    show "(\<forall>g < length fs. g \<noteq> target \<longrightarrow> newlySettled rank (rank target) fs fs' g) \<and>
        deepest (fs' ! target) =
          fold max (map (\<lambda>a. case findFunctionByAddress fs a of None \<Rightarrow> 0
                          | Some h \<Rightarrow> deepest (fs' ! h)) (a # rest)) (deepest (fs ! target)) \<and>
        (\<forall>a \<in> set (a # rest). \<exists>h. findFunctionByAddress fs a = Some h \<and> isProcessed (fs' ! h)) \<and>
        out' = out"
      by simp
  qed
qed

lemma resolveLoop_acyclic:
  "\<forall>i \<in> set is. i < length fs \<Longrightarrow> acyclicBy rank fs \<Longrightarrow> \<forall>r. restOk rank r fs \<Longrightarrow>
   resolveLoop is fs out = Some (fs', out') \<Longrightarrow>
     (\<forall>r. restOk rank r fs') \<and> sameStatic fs fs' \<and> out' = out \<and>
     (\<forall>g < length fs. settled fs g \<or> g \<in> set is \<longrightarrow> settled fs' g)"
proof (induction "is" arbitrary: fs out)
  case Nil
  then show ?case by simp
next
  case (Cons i "is")
  from Cons.prems(4) obtain fs1 out1 v where
    g: "getDeepestStackUsage (Suc (length fs)) fs out i = Some (fs1, out1, v)" and
    l: "resolveLoop is fs1 out1 = Some (fs', out')"
    by (auto split: option.splits)
  from resolver_frame(1) g have f1: "frame fs fs1" by blast
  then have s1: "sameStatic fs fs1" and len1: "length fs1 = length fs"
    by (auto simp: frame_def dest: sameStatic_length)
  from resolver_acyclic(1) [of "Suc (length fs)" fs out i rank] g Cons.prems(2,3)
  have new1: "\<forall>g < length fs. newlySettled rank (Suc (rank i)) fs fs1 g"
    and sti: "settled fs1 i" and o1: "out1 = out"
    by blast+
  have ok1: "\<forall>r. restOk rank r fs1"
    using Cons.prems(3) f1 new1 by (blast intro: restOk_frame)
  have ac1: "acyclicBy rank fs1" using Cons.prems(2) s1 by (rule acyclicBy_sameStatic)
  have is1: "\<forall>i \<in> set is. i < length fs1" using Cons.prems(1) len1 by simp
  from Cons.IH [OF is1 ac1 ok1 l]
  have r: "\<forall>r. restOk rank r fs'" "sameStatic fs1 fs'" "out' = out1"
    "\<forall>g < length fs1. settled fs1 g \<or> g \<in> set is \<longrightarrow> settled fs' g"
    by auto
  have "\<forall>g < length fs. settled fs g \<or> g \<in> set (i # is) \<longrightarrow> settled fs' g"
  proof (intro allI impI)
    fix g assume gl: "g < length fs" and c: "settled fs g \<or> g \<in> set (i # is)"
    then have "settled fs1 g \<or> g \<in> set is"
      using sti settled_frame [OF _ gl f1] by auto
    with r(4) gl len1 show "settled fs' g" by auto
  qed
  with r(1,3) o1 sameStatic_trans [OF s1 r(2)] show ?case by simp
qed

lemma unat_Max_words:
  fixes xs :: "32 word list"
  assumes "xs \<noteq> []"
  shows "unat (Max (set xs)) = Max (unat ` set xs)"
  by (rule mono_Max_commute) (auto simp: mono_def word_le_nat_alt assms)

text \<open>
  Claim C2, as amended.  Take a freshly built graph (no record marked, every \<open>deepest\<close>
  still 0) in which every edge resolves to a record and leads to a record of smaller rank,
  so that there is no cycle, and whose frame sizes add up to less than \<open>2 ^ 32\<close>.  The
  resolution pass returns, prints nothing, and leaves every function \<open>g\<close> with \<open>deepest\<close>
  equal to its own frame if it has no edge, and to its own frame plus the largest
  \<open>deepest\<close> among the records its edges resolve to otherwise; the sum is that of the
  natural numbers, nothing wraps around.  For \<open>A\<close> (frame 16, one call to \<open>B\<close>) and \<open>B\<close>
  (frame 8, no call) the pass gives 24 and 8.  Without the bound on the frame sizes the
  sum can pass \<open>2 ^ 32\<close>: two frames of \<open>0x80000000\<close>, the first calling the second, leave
  the first with \<open>deepest\<close> 0.
\<close>

theorem acyclic_deepest_is_own_plus_max:
  "((\<forall>f \<in> set fs. \<not> isProcessed f \<and> deepest f = 0) \<and> acyclicBy rank fs \<and>
    totalOwn fs < 2 ^ 32 \<longrightarrow>
      (\<exists>fs'. resolveAll fs out = Some (fs', out) \<and> length fs' = length fs \<and>
         (\<forall>g < length fs.
            ownStack (fs' ! g) = ownStack (fs ! g) \<and> jumpsTo (fs' ! g) = jumpsTo (fs ! g) \<and>
            (jumpsTo (fs ! g) = [] \<longrightarrow> deepest (fs' ! g) = ownStack (fs ! g)) \<and>
            (jumpsTo (fs ! g) \<noteq> [] \<longrightarrow>
               unat (deepest (fs' ! g))
                 = unat (ownStack (fs ! g)) + Max (unat ` set (calleeDepths fs' g)))))) \<and>
   resolveAll [plainA, plainB] []
     = Some ([plainA\<lparr>deepest := 24, isProcessed := True\<rparr>,
              plainB\<lparr>deepest := 8, isProcessed := True\<rparr>], [])"
proof (intro conjI impI)
  assume a: "(\<forall>f \<in> set fs. \<not> isProcessed f \<and> deepest f = 0) \<and> acyclicBy rank fs \<and>
    totalOwn fs < 2 ^ 32"
  then have fresh: "\<forall>f \<in> set fs. \<not> isProcessed f \<and> deepest f = 0"
    and ac: "acyclicBy rank fs" and tot: "totalOwn fs < 2 ^ 32" by simp_all
  from fresh have ok: "\<forall>r. restOk rank r fs" by (auto simp: restOk_def)
  from resolveAll_returns obtain fs' out' where r: "resolveAll fs out = Some (fs', out')"
    by blast
  then have l: "resolveLoop [0 ..< length fs] fs out = Some (fs', out')"
    by (simp add: resolveAll_def)
  have idx: "\<forall>i \<in> set [0 ..< length fs]. i < length fs" by simp
  from resolveLoop_acyclic [OF idx ac ok l]
  have s: "sameStatic fs fs'" and o: "out' = out" and st: "\<forall>g < length fs. settled fs' g"
    by auto
  from resolveLoop_bounded [OF idx tot bounded_fresh [OF fresh] l]
  have b: "bounded fs' {}" and p: "\<forall>g < length fs. isProcessed (fs' ! g)" by auto
  have len: "length fs' = length fs" using s by (rule sameStatic_length)
  have "\<forall>g < length fs.
            ownStack (fs' ! g) = ownStack (fs ! g) \<and> jumpsTo (fs' ! g) = jumpsTo (fs ! g) \<and>
            (jumpsTo (fs ! g) = [] \<longrightarrow> deepest (fs' ! g) = ownStack (fs ! g)) \<and>
            (jumpsTo (fs ! g) \<noteq> [] \<longrightarrow>
               unat (deepest (fs' ! g))
                 = unat (ownStack (fs ! g)) + Max (unat ` set (calleeDepths fs' g)))"
  proof (intro allI impI)
    fix g assume g: "g < length fs"
    have sf: "ownStack (fs' ! g) = ownStack (fs ! g)" "jumpsTo (fs' ! g) = jumpsTo (fs ! g)"
      using sameStatic_fields [OF s g] by simp_all
    from st g have d: "deepest (fs' ! g) = ownStack (fs' ! g) + fold max (calleeDepths fs' g) 0"
      by (simp add: settled_def)
    from b p g len have le: "ownStack (fs' ! g) \<le> deepest (fs' ! g)"
      by (simp add: bounded_def)
    have e: "jumpsTo (fs ! g) = [] \<Longrightarrow> calleeDepths fs' g = []"
      by (simp add: calleeDepths_def sf)
    have ne: "jumpsTo (fs ! g) \<noteq> [] \<Longrightarrow> calleeDepths fs' g \<noteq> []"
      by (simp add: calleeDepths_def sf)
    have n: "unat (deepest (fs' ! g))
               = unat (ownStack (fs ! g)) + Max (unat ` set (calleeDepths fs' g))"
      if j: "jumpsTo (fs ! g) \<noteq> []"
    proof -
      have m: "fold max (calleeDepths fs' g) 0 = Max (set (calleeDepths fs' g))"
        using fold_max_zero [OF ne [OF j]] .
      from le d have "ownStack (fs' ! g) \<le> ownStack (fs' ! g) + fold max (calleeDepths fs' g) 0"
        by simp
      then have "unat (ownStack (fs' ! g)) + unat (fold max (calleeDepths fs' g) 0)
                   < 2 ^ LENGTH(32)"
        by (simp only: no_olen_add_nat)
      then have "unat (ownStack (fs' ! g) + fold max (calleeDepths fs' g) 0)
                   = unat (ownStack (fs' ! g)) + unat (fold max (calleeDepths fs' g) 0)"
        by (simp only: unat_add_lem)
      with d m sf show ?thesis by (simp add: unat_Max_words [OF ne [OF j]])
    qed
    show "ownStack (fs' ! g) = ownStack (fs ! g) \<and> jumpsTo (fs' ! g) = jumpsTo (fs ! g) \<and>
            (jumpsTo (fs ! g) = [] \<longrightarrow> deepest (fs' ! g) = ownStack (fs ! g)) \<and>
            (jumpsTo (fs ! g) \<noteq> [] \<longrightarrow>
               unat (deepest (fs' ! g))
                 = unat (ownStack (fs ! g)) + Max (unat ` set (calleeDepths fs' g)))"
      using sf d e n by auto
  qed
  with r o len show "\<exists>fs'. resolveAll fs out = Some (fs', out) \<and> length fs' = length fs \<and>
         (\<forall>g < length fs.
            ownStack (fs' ! g) = ownStack (fs ! g) \<and> jumpsTo (fs' ! g) = jumpsTo (fs ! g) \<and>
            (jumpsTo (fs ! g) = [] \<longrightarrow> deepest (fs' ! g) = ownStack (fs ! g)) \<and>
            (jumpsTo (fs ! g) \<noteq> [] \<longrightarrow>
               unat (deepest (fs' ! g))
                 = unat (ownStack (fs ! g)) + Max (unat ` set (calleeDepths fs' g))))"
    by blast
next
  show "resolveAll [plainA, plainB] []
     = Some ([plainA\<lparr>deepest := 24, isProcessed := True\<rparr>,
              plainB\<lparr>deepest := 8, isProcessed := True\<rparr>], [])"
    by (simp add: resolveAll_def plainA_def plainB_def upt_rec)
qed

theorem acyclic_deepest_wraps_counterexample:
  "\<not> isProcessed wrapA \<and> deepest wrapA = 0 \<and> \<not> isProcessed wrapB \<and> deepest wrapB = 0 \<and>
   acyclicBy ((-) (Suc 0)) [wrapA, wrapB] \<and>
   resolveAll [wrapA, wrapB] []
     = Some ([wrapA\<lparr>deepest := 0, isProcessed := True\<rparr>,
              wrapB\<lparr>deepest := 0x80000000, isProcessed := True\<rparr>], []) \<and>
   calleeDepths [wrapA\<lparr>deepest := 0, isProcessed := True\<rparr>,
                 wrapB\<lparr>deepest := 0x80000000, isProcessed := True\<rparr>] 0 = [0x80000000] \<and>
   unat (deepest (wrapA\<lparr>deepest := 0, isProcessed := True\<rparr>)) = 0 \<and>
   unat (ownStack wrapA) + unat (0x80000000 :: 32 word) = 4294967296"
  by (simp add: resolveAll_def wrapA_def wrapB_def upt_rec acyclicBy_def calleeDepths_def
      All_less_Suc)

theorem acyclic_deepest_witness:
  "list_all (\<lambda>f. \<not> isProcessed f \<and> deepest f = 0) diamond \<and>
   acyclicBy (\<lambda>g. 3 - g) diamond \<and> totalOwn diamond < 2 ^ 32 \<and>
   (\<exists>fs'. resolveAll diamond [] = Some (fs', []) \<and>
      unat (deepest (fs' ! 0)) = 16 + Max (unat ` set (calleeDepths fs' 0)) \<and>
      deepest (fs' ! 3) = 24)"
proof -
  have h1: "\<forall>f \<in> set diamond. \<not> isProcessed f \<and> deepest f = 0"
    by (simp add: diamond_def)
  have h2: "acyclicBy (\<lambda>g. 3 - g) diamond"
    by (simp add: acyclicBy_def diamond_def All_less_Suc)
  have h3: "totalOwn diamond < 2 ^ 32"
    by (simp add: totalOwn_def diamond_def)
  from acyclic_deepest_is_own_plus_max [of diamond "\<lambda>g. 3 - g" "[]"] h1 h2 h3
  obtain fs' where r: "resolveAll diamond [] = Some (fs', [])"
    and a: "\<forall>g < length diamond.
            ownStack (fs' ! g) = ownStack (diamond ! g) \<and> jumpsTo (fs' ! g) = jumpsTo (diamond ! g) \<and>
            (jumpsTo (diamond ! g) = [] \<longrightarrow> deepest (fs' ! g) = ownStack (diamond ! g)) \<and>
            (jumpsTo (diamond ! g) \<noteq> [] \<longrightarrow>
               unat (deepest (fs' ! g))
                 = unat (ownStack (diamond ! g)) + Max (unat ` set (calleeDepths fs' g)))"
    by blast
  have "(0::nat) < length diamond" "(3::nat) < length diamond" by (simp_all add: diamond_def)
  with a have "unat (deepest (fs' ! 0))
      = unat (ownStack (diamond ! 0)) + Max (unat ` set (calleeDepths fs' 0))"
    "deepest (fs' ! 3) = ownStack (diamond ! 3)"
    by (auto simp: diamond_def)
  then have "unat (deepest (fs' ! 0)) = 16 + Max (unat ` set (calleeDepths fs' 0))"
    "deepest (fs' ! 3) = 24"
    by (simp_all add: diamond_def)
  with r h1 h2 h3 show ?thesis by (simp add: list_all_iff)
qed

section \<open>Re-entering a function whose loop is running\<close>

lemma calls_keep_marked_aux:
  "\<forall>s x. (s, x) \<in> set (resolverCalls n fs out t) \<longrightarrow>
     length s = length fs \<and> (\<forall>g < length fs. isProcessed (fs ! g) \<longrightarrow> s ! g = fs ! g)"
  "\<forall>s x. (s, x) \<in> set (loopCalls n fs out t as) \<longrightarrow> t < length fs \<longrightarrow>
     isProcessed (fs ! t) \<longrightarrow>
     length s = length fs \<and> (\<forall>g < length fs. isProcessed (fs ! g) \<longrightarrow> g \<noteq> t \<longrightarrow> s ! g = fs ! g)"
proof (induction n fs out t and n fs out t as rule: resolverCalls_loopCalls.induct)
  case (1 fs out target)
  then show ?case by simp
next
  case (2 n fs out target)
  show ?case
  proof (intro allI impI)
    fix s x
    assume c: "(s, x) \<in> set (resolverCalls (Suc n) fs out target)"
    let ?fs1 = "fs[target := (fs ! target)\<lparr>isProcessed := True\<rparr>]"
    have lt: "target < length fs"
    proof (rule ccontr)
      assume "\<not> target < length fs"
      then have "resolverCalls (Suc n) fs out target = []" by simp
      with c show False by simp
    qed
    have np: "\<not> isProcessed (fs ! target)"
    proof
      assume "isProcessed (fs ! target)"
      then have "resolverCalls (Suc n) fs out target = []" by simp
      with c show False by simp
    qed
    have "resolverCalls (Suc n) fs out target
        = loopCalls n ?fs1 out target (jumpsTo (fs ! target))" using lt np by simp
    with c have c1: "(s, x) \<in> set (loopCalls n ?fs1 out target (jumpsTo (fs ! target)))"
      by (simp only:)
    have nle: "\<not> length fs \<le> target" using lt by simp
    have lt1: "target < length ?fs1" and p1: "isProcessed (?fs1 ! target)"
      using lt by simp_all
    from 2 [OF nle np] c1 lt1 p1
    have ih: "length s = length ?fs1"
      "\<forall>g < length ?fs1. isProcessed (?fs1 ! g) \<longrightarrow> g \<noteq> target \<longrightarrow> s ! g = ?fs1 ! g"
      by blast+
    show "length s = length fs \<and> (\<forall>g < length fs. isProcessed (fs ! g) \<longrightarrow> s ! g = fs ! g)"
    proof (intro conjI allI impI)
      show "length s = length fs" using ih(1) by simp
    next
      fix g assume g: "g < length fs" "isProcessed (fs ! g)"
      with np have ne: "g \<noteq> target" by auto
      then have "g < length ?fs1" "isProcessed (?fs1 ! g)" using g by simp_all
      with ih(2) ne have "s ! g = ?fs1 ! g" by blast
      then show "s ! g = fs ! g" using ne by simp
    qed
  qed
next
  case (3 n fs out target)
  then show ?case by simp
next
  case (4 n fs out target a rest)
  show ?case
  proof (intro allI impI)
    fix s x
    assume c: "(s, x) \<in> set (loopCalls n fs out target (a # rest))"
      and lt: "target < length fs" and pt: "isProcessed (fs ! target)"
    show "length s = length fs \<and>
        (\<forall>g < length fs. isProcessed (fs ! g) \<longrightarrow> g \<noteq> target \<longrightarrow> s ! g = fs ! g)"
    proof (cases "findFunctionByAddress fs a")
      case None
      with c have "(s, x) \<in> set (loopCalls n fs (out @ [(name (fs ! target), a)]) target rest)"
        by simp
      with 4(1) [OF None] lt pt show ?thesis by blast
    next
      case (Some j)
      have unfold: "loopCalls n fs out target (a # rest) =
          (fs, j) # resolverCalls n fs out j @
          (case getDeepestStackUsage n fs out j of
             None \<Rightarrow> []
           | Some (fs', out', thisBranch) \<Rightarrow>
               loopCalls n
                 (if thisBranch > deepest (fs' ! target)
                  then fs'[target := (fs' ! target)\<lparr>deepest := thisBranch\<rparr>]
                  else fs')
                 out' target rest)"
        using Some by simp
      from c consider "(s, x) = (fs, j)" | "(s, x) \<in> set (resolverCalls n fs out j)"
        | fs1 out1 v where "getDeepestStackUsage n fs out j = Some (fs1, out1, v)"
            "(s, x) \<in> set (loopCalls n (if deepest (fs1 ! target) < v
               then fs1[target := (fs1 ! target)\<lparr>deepest := v\<rparr>] else fs1) out1 target rest)"
        unfolding unfold by (cases "getDeepestStackUsage n fs out j") auto
      then show ?thesis
      proof cases
        case 1
        then show ?thesis by simp
      next
        case 2
        with 4(2) [OF Some] show ?thesis by blast
      next
        case 3
        let ?fs2 = "if deepest (fs1 ! target) < v
               then fs1[target := (fs1 ! target)\<lparr>deepest := v\<rparr>] else fs1"
        have len1: "length fs1 = length fs" using 3(1) by (rule getDeepestStackUsage_length)
        have k: "\<And>g. g < length fs \<Longrightarrow> isProcessed (fs ! g) \<Longrightarrow> fs1 ! g = fs ! g"
          using getDeepestStackUsage_keeps [OF 3(1)] by simp
        have len2: "length ?fs2 = length fs" using len1 by simp
        have lt2: "target < length ?fs2" and pt2: "isProcessed (?fs2 ! target)"
          using lt pt len1 k [OF lt pt] by simp_all
        from 4(3) [OF Some 3(1) refl refl] 3(2) lt2 pt2
        have ih: "length s = length ?fs2"
          "\<forall>g < length ?fs2. isProcessed (?fs2 ! g) \<longrightarrow> g \<noteq> target \<longrightarrow> s ! g = ?fs2 ! g"
          by blast+
        show ?thesis
        proof (intro conjI allI impI)
          show "length s = length fs" using ih(1) len2 by simp
        next
          fix g assume g: "g < length fs" "isProcessed (fs ! g)" "g \<noteq> target"
          then have g2: "?fs2 ! g = fs ! g" using k by simp
          then have "g < length ?fs2" "isProcessed (?fs2 ! g)" using g len2 by simp_all
          with ih(2) g(3) have "s ! g = ?fs2 ! g" by blast
          with g2 show "s ! g = fs ! g" by simp
        qed
      qed
    qed
  qed
qed

lemma calls_keep_marked:
  "(s, x) \<in> set (resolverCalls n fs out t) \<Longrightarrow> g < length fs \<Longrightarrow> isProcessed (fs ! g) \<Longrightarrow>
     s ! g = fs ! g"
  using calls_keep_marked_aux(1) by blast

lemma loopCalls_length:
  "(s, x) \<in> set (loopCalls n fs out t as) \<Longrightarrow> t < length fs \<Longrightarrow> isProcessed (fs ! t) \<Longrightarrow>
     length s = length fs"
  using calls_keep_marked_aux(2) by blast

lemma loop_calls_between:
  "jumpLoop n fs out t as = Some (fs', out') \<Longrightarrow> t < length fs \<Longrightarrow> isProcessed (fs ! t) \<Longrightarrow>
   (s, x) \<in> set (loopCalls n fs out t as) \<Longrightarrow>
     isProcessed (s ! t) \<and> deepest (fs ! t) \<le> deepest (s ! t) \<and> deepest (s ! t) \<le> deepest (fs' ! t)"
proof (induction as arbitrary: fs out)
  case Nil
  then show ?case by simp
next
  case (Cons a rest)
  have whole: "deepest (fs ! t) \<le> deepest (fs' ! t)"
    using jumpLoop_frameBut [OF Cons.prems(1,2,3)] by (simp add: frameBut_def)
  show ?case
  proof (cases "findFunctionByAddress fs a")
    case None
    with Cons.prems have "jumpLoop n fs (out @ [(name (fs ! t), a)]) t rest = Some (fs', out')"
      "(s, x) \<in> set (loopCalls n fs (out @ [(name (fs ! t), a)]) t rest)" by simp_all
    from Cons.IH [OF this(1) Cons.prems(2,3) this(2)] show ?thesis .
  next
    case (Some j)
    from Cons.prems(1) Some obtain fs1 out1 v where
      g: "getDeepestStackUsage n fs out j = Some (fs1, out1, v)" and
      l: "jumpLoop n (if deepest (fs1 ! t) < v
             then fs1[t := (fs1 ! t)\<lparr>deepest := v\<rparr>] else fs1) out1 t rest
           = Some (fs', out')"
      by (auto split: option.splits)
    let ?fs2 = "if deepest (fs1 ! t) < v then fs1[t := (fs1 ! t)\<lparr>deepest := v\<rparr>] else fs1"
    have len1: "length fs1 = length fs" using g by (rule getDeepestStackUsage_length)
    have t1: "fs1 ! t = fs ! t" using g Cons.prems(2,3) by (rule getDeepestStackUsage_keeps)
    have lt2: "t < length ?fs2" and p2: "isProcessed (?fs2 ! t)"
      using Cons.prems(2,3) len1 t1 by simp_all
    have up: "deepest (fs ! t) \<le> deepest (?fs2 ! t)"
      using t1 Cons.prems(2) len1 by auto
    have "loopCalls n fs out t (a # rest)
        = (fs, j) # resolverCalls n fs out j @ loopCalls n ?fs2 out1 t rest"
      using Some g by simp
    with Cons.prems(4) consider "(s, x) = (fs, j)"
      | "(s, x) \<in> set (resolverCalls n fs out j)"
      | "(s, x) \<in> set (loopCalls n ?fs2 out1 t rest)"
      by auto
    then show ?thesis
    proof cases
      case 1
      then show ?thesis using Cons.prems(3) whole by simp
    next
      case 2
      then have "s ! t = fs ! t" using Cons.prems(2,3) by (rule calls_keep_marked)
      then show ?thesis using Cons.prems(3) whole by simp
    next
      case 3
      from Cons.IH [OF l lt2 p2 3] up show ?thesis by auto
    qed
  qed
qed

lemma reentry_below_final:
  assumes r: "getDeepestStackUsage n fs out t = Some (fs', out', v)"
    and np: "\<not> isProcessed (fs ! t)"
    and c: "(s, t) \<in> set (resolverCalls n fs out t)"
  shows "t < length s \<and> isProcessed (s ! t) \<and> deepest (s ! t) \<le> v - ownStack (fs ! t)"
proof -
  from r obtain m where n: "n = Suc m" by (cases n) auto
  from r have r': "getDeepestStackUsage (Suc m) fs out t = Some (fs', out', v)"
    by (simp only: n)
  from r' have lt: "t < length fs" by (auto split: if_splits)
  let ?fs1 = "fs[t := (fs ! t)\<lparr>isProcessed := True\<rparr>]"
  from r' lt np obtain fs2 where
    l: "jumpLoop m ?fs1 out t (jumpsTo (fs ! t)) = Some (fs2, out')" and
    fs': "fs' = fs2[t := (fs2 ! t)\<lparr>deepest := deepest (fs2 ! t) + ownStack (fs2 ! t)\<rparr>]" and
    v: "v = deepest (fs' ! t)"
    by (auto split: option.splits simp: Let_def)
  have lt1: "t < length ?fs1" and p1: "isProcessed (?fs1 ! t)" using lt by simp_all
  have "resolverCalls (Suc m) fs out t = loopCalls m ?fs1 out t (jumpsTo (fs ! t))"
    using lt np by simp
  with c n have c1: "(s, t) \<in> set (loopCalls m ?fs1 out t (jumpsTo (fs ! t)))"
    by (simp only:)
  from loop_calls_between [OF l lt1 p1 c1]
  have b: "isProcessed (s ! t)" "deepest (s ! t) \<le> deepest (fs2 ! t)" by simp_all
  have fb: "frameBut t ?fs1 fs2" using l lt1 p1 by (rule jumpLoop_frameBut)
  then have len2: "length fs2 = length fs" and s12: "sameStatic ?fs1 fs2"
    by (auto simp: frameBut_def dest: sameStatic_length)
  have s2: "sameStatic fs fs2"
    using sameStatic_update_processed [OF lt] s12 by (rule sameStatic_trans)
  have own2: "ownStack (fs2 ! t) = ownStack (fs ! t)"
    using sameStatic_fields [OF s2 lt] by simp
  have "v = deepest (fs2 ! t) + ownStack (fs ! t)" using v lt len2 own2 by (simp add: fs')
  then have "v - ownStack (fs ! t) = deepest (fs2 ! t)" by simp
  moreover have "length s = length ?fs1" using c1 lt1 p1 by (rule loopCalls_length)
  ultimately show ?thesis using b lt by simp
qed

text \<open>
  Claim C10, as amended.  Let the resolver be called on a function \<open>t\<close> that is not yet
  marked, and let it return \<open>v\<close>.  Every call on \<open>t\<close> made in the meantime finds \<open>t\<close>
  marked, changes nothing and returns the value stored for \<open>t\<close> at that moment; this
  value is at most \<open>v - ownStack\<close> (computed in \<open>uint32_t\<close>), the value accumulated
  before the frame is added.  It is strictly smaller than \<open>v\<close> when the frame is positive
  and the final addition did not wrap around, that is, when \<open>v\<close> is at least the frame.
\<close>

theorem reentry_excludes_own_frame:
  assumes "getDeepestStackUsage n fs out t = Some (fs', out', v)"
    and "\<not> isProcessed (fs ! t)"
    and "(s, t) \<in> set (resolverCalls n fs out t)"
  shows "getDeepestStackUsage (Suc k) s out1 t = Some (s, out1, deepest (s ! t)) \<and>
         deepest (s ! t) \<le> v - ownStack (fs ! t) \<and>
         (0 < ownStack (fs ! t) \<longrightarrow> ownStack (fs ! t) \<le> v \<longrightarrow> deepest (s ! t) < v)"
proof -
  from reentry_below_final [OF assms]
  have a: "t < length s" "isProcessed (s ! t)" "deepest (s ! t) \<le> v - ownStack (fs ! t)"
    by simp_all
  have "deepest (s ! t) < v" if "0 < ownStack (fs ! t)" "ownStack (fs ! t) \<le> v"
  proof -
    have "unat (v - ownStack (fs ! t)) = unat v - unat (ownStack (fs ! t))"
      using that(2) by (rule unat_sub)
    moreover have "0 < unat (ownStack (fs ! t))" using that(1) by (simp add: word_less_nat_alt)
    moreover have "unat (ownStack (fs ! t)) \<le> unat v" using that(2) by (simp add: word_le_nat_alt)
    ultimately have "unat (v - ownStack (fs ! t)) < unat v" by simp
    then have "v - ownStack (fs ! t) < v" by (simp add: word_less_nat_alt)
    with a(3) show ?thesis by simp
  qed
  with a show ?thesis by simp
qed

theorem reentry_counterexample:
  "getDeepestStackUsage (Suc (Suc (Suc 0))) [hugeT, smallB] [] 0
     = Some ([hugeT\<lparr>deepest := 0, isProcessed := True\<rparr>,
              smallB\<lparr>deepest := 1, isProcessed := True\<rparr>], [], 0) \<and>
   ([hugeT\<lparr>isProcessed := True\<rparr>, smallB\<lparr>isProcessed := True\<rparr>], 0)
     \<in> set (resolverCalls (Suc (Suc (Suc 0))) [hugeT, smallB] [] 0) \<and>
   getDeepestStackUsage (Suc 0) [hugeT\<lparr>isProcessed := True\<rparr>, smallB\<lparr>isProcessed := True\<rparr>] [] 0
     = Some ([hugeT\<lparr>isProcessed := True\<rparr>, smallB\<lparr>isProcessed := True\<rparr>], [], 0) \<and>
   0 < ownStack hugeT \<and> \<not> ((0 :: 32 word) < 0)"
  by (simp add: hugeT_def smallB_def)

theorem reentry_witness:
  "getDeepestStackUsage (Suc 0) [mutualA\<lparr>isProcessed := True\<rparr>, mutualB\<lparr>isProcessed := True\<rparr>] [] 0
     = Some ([mutualA\<lparr>isProcessed := True\<rparr>, mutualB\<lparr>isProcessed := True\<rparr>], [], 0) \<and>
   (0 :: 32 word) < 32"
proof -
  have h1: "getDeepestStackUsage (Suc (Suc (Suc 0))) [mutualA, mutualB] [] 0
         = Some ([mutualA\<lparr>deepest := 32, isProcessed := True\<rparr>,
                  mutualB\<lparr>deepest := 16, isProcessed := True\<rparr>], [], 32)"
    by (simp add: mutualA_def mutualB_def)
  have h2: "\<not> isProcessed ([mutualA, mutualB] ! 0)" by (simp add: mutualA_def)
  have h3: "([mutualA\<lparr>isProcessed := True\<rparr>, mutualB\<lparr>isProcessed := True\<rparr>], 0)
      \<in> set (resolverCalls (Suc (Suc (Suc 0))) [mutualA, mutualB] [] 0)"
    by (simp add: mutualA_def mutualB_def)
  from reentry_excludes_own_frame [OF h1 h2 h3, of 0 "[]"]
  show ?thesis by (simp add: mutualA_def)
qed

section \<open>Parsing\<close>

declare mainLoop.simps [simp del] findNextTextSectionLoop.simps [simp del]

lemma readLine_numeral [simp]:
  "readLine (numeral k) (c # cs) = (if c = CHR 0x0A then [c] else c # readLine (pred_numeral k) cs)"
  "readLine n [] = []"
  by (simp_all add: numeral_eq_Suc) (cases n; simp)

lemmas clib = strtoul16_def strtol10_def skipSign_def skipHexPrefix_def digitValue_def
  isspace_def hasDigit_def tab_def nl_def strncmp_eq_def

lemmas parse = fgets_def feof_def findNextTextSection_def expectedString_def
  createNewFunctionInfo_def sectionString_def textSectionString_def labelEndString_def
  stackPointerString_def recordJump_def processInstruction_def openNext_def loopBody_def
  main_def printStackInfo_def Let_def mainLoop.simps findNextTextSectionLoop.simps
  cleanupFunctionInfo_def stagingCapacity_def jumpsToCapacity_def
  resolveAll_def upt_rec sortForDeepest_def sortList_def outerLoop.simps

text \<open>
  Claim C8.  A label without \<open><\<close> or \<open>>\<close> creates no record, and the next pass
  through the loop prints \<open>something went wrong\<close> and returns -1.  But the test sits
  behind the end-of-file test of the loop: when the unparsable label is the last thing in
  the stream and has no newline after it, \<open>fgets\<close> sets the end-of-file indicator while
  reading it, the loop ends, and \<open>main\<close> prints its table and returns 0.  With a newline
  after the same label the run ends with -1.
\<close>

theorem unparsable_label_at_end_not_fatal:
  "createNewFunctionInfo ''9d000100 startup:'' = Inr None \<and>
   main CHR ''d'' 10 (unparsableLastLabel, False)
     = Inr (0, [Header, Row ''main'' 24 24 False, Done]) \<and>
   main CHR ''d'' 10 (unparsableLastLabel @ nl, False) = Inr (- 1, [SomethingWentWrong])"
  by (simp add: unparsableLastLabel_def clib parse)

lemma strrchr_None_iff: "strrchr s c = None \<longleftrightarrow> c \<notin> set s"
  by (induction s) (auto split: option.splits)

lemma strstr_Some_set:
  "strstr s needle = Some p \<Longrightarrow> set needle \<subseteq> set s"
proof (induction s)
  case Nil
  then show ?case by (auto split: if_splits)
next
  case (Cons c cs)
  show ?case
  proof (cases "take (length needle) (c # cs) = needle")
    case True
    then have "set needle \<subseteq> set (c # cs)" by (metis set_take_subset)
    then show ?thesis .
  next
    case False
    with Cons show ?thesis by auto
  qed
qed

lemma digits_no_digit: "\<not> hasDigit base s \<Longrightarrow> digits base s acc = acc"
  by (cases s) (auto simp: hasDigit_def split: option.splits)

lemma strtoul16_no_literal:
  assumes "\<not> hasDigit 16 (snd (skipSign (dropWhile isspace s)))"
  shows "strtoul16 s = 0"
proof -
  obtain neg s1 where k: "skipSign (dropWhile isspace s) = (neg, s1)"
    by (cases "skipSign (dropWhile isspace s)")
  with assms have nd: "\<not> hasDigit 16 s1" by simp
  have "skipHexPrefix s1 = s1 \<or> (\<exists>x rest. s1 = CHR ''0'' # x # rest)"
    by (auto simp: skipHexPrefix_def split: list.splits)
  moreover have "\<not> (\<exists>x rest. s1 = CHR ''0'' # x # rest)"
    using nd by (auto simp: hasDigit_def digitValue_def)
  ultimately have "skipHexPrefix s1 = s1" by blast
  then have "digits 16 (skipHexPrefix s1) 0 = 0" using nd by (simp add: digits_no_digit)
  then show ?thesis by (simp add: strtoul16_def k)
qed

text \<open>
  The last branch of the classifier stores what \<open>strtoul\<close> returns and never looks at
  whether a number was read.  Take a line that has no stack-pointer adjustment, contains
  the text of a branch or jump mnemonic (a blank, a tab and \<open>b\<close> or \<open>j\<close>) and is none of
  \<open>jr ra\<close>, \<open>jalr\<close> and \<open>jr\<close>, and a record that has room left in \<open>jumpsTo\<close>.  The
  source records exactly one more edge, whose target is what \<open>strtoul\<close> reads in base 16
  from the text after the last comma of the line, or after the last tab when the line has
  no comma; when that text does not start with a hexadecimal number, the target is 0.
\<close>

theorem jump_branch_stores_strtoul_result:
  assumes "strstr line stackPointerString = None"
    and "strstr line ('' '' @ tab @ ''b'') \<noteq> None \<or> strstr line ('' '' @ tab @ ''j'') \<noteq> None"
    and "strstr line ('' '' @ tab @ ''jr'' @ tab @ ''ra'') = None"
    and "strstr line ('' '' @ tab @ ''jalr'' @ tab) = None"
    and "strstr line ('' '' @ tab @ ''jr'' @ tab) = None"
    and "length (jumpsTo f) < jumpsToCapacity"
  shows "\<exists>p f1. (strrchr line CHR '','' = Some p \<or>
                 strrchr line CHR '','' = None \<and> strrchr line CHR 0x09 = Some p) \<and>
           f1 = (if strtoul16 line > endAddr f then f\<lparr>endAddr := strtoul16 line\<rparr> else f) \<and>
           processInstruction line f = Inr (f1\<lparr>jumpsTo := jumpsTo f @ [strtoul16 (tl p)]\<rparr>) \<and>
           (\<not> hasDigit 16 (snd (skipSign (dropWhile isspace (tl p)))) \<longrightarrow>
              processInstruction line f = Inr (f1\<lparr>jumpsTo := jumpsTo f @ [0]\<rparr>))"
proof -
  from assms(2) obtain needle r where "strstr line needle = Some r" "CHR 0x09 \<in> set needle"
    by (auto simp: tab_def)
  then have "CHR 0x09 \<in> set line" using strstr_Some_set by blast
  then obtain q where q: "strrchr line CHR 0x09 = Some q"
    using strrchr_None_iff [of line "CHR 0x09"] by (cases "strrchr line CHR 0x09") auto
  define p where "p = (case strrchr line CHR '','' of Some r \<Rightarrow> r | None \<Rightarrow> q)"
  define f1 where "f1 = (if strtoul16 line > endAddr f then f\<lparr>endAddr := strtoul16 line\<rparr> else f)"
  have sel: "strrchr line CHR '','' = Some p \<or>
      strrchr line CHR '','' = None \<and> strrchr line CHR 0x09 = Some p"
    using q by (auto simp: p_def split: option.splits)
  have len: "length (jumpsTo f1) < jumpsToCapacity" and j: "jumpsTo f1 = jumpsTo f"
    using assms(6) by (simp_all add: f1_def)
  have r: "recordJump line f1 = Inr (f1\<lparr>jumpsTo := jumpsTo f @ [strtoul16 (tl p)]\<rparr>)"
    using sel len j by (auto simp: recordJump_def)
  have pi: "processInstruction line f = recordJump line f1"
    using assms(1-5) by (auto simp: processInstruction_def f1_def Let_def)
  have z: "\<not> hasDigit 16 (snd (skipSign (dropWhile isspace (tl p)))) \<longrightarrow>
      processInstruction line f = Inr (f1\<lparr>jumpsTo := jumpsTo f @ [0]\<rparr>)"
    using pi r strtoul16_no_literal [of "tl p"] by simp
  have e: "processInstruction line f = Inr (f1\<lparr>jumpsTo := jumpsTo f @ [strtoul16 (tl p)]\<rparr>)"
    using pi r by simp
  show ?thesis
    by (rule exI [of _ p], rule exI [of _ f1], intro conjI) (rule sel, rule f1_def, rule e, rule z)
qed

theorem jump_branch_stores_strtoul_result_witness:
  "processInstruction bitrevLine openRecord
     = Inr (openRecord\<lparr>endAddr := 0x9d000008, jumpsTo := [0]\<rparr>)"
proof -
  have h1: "strstr bitrevLine stackPointerString = None"
    by (simp add: bitrevLine_def clib parse)
  have h2: "strstr bitrevLine ('' '' @ tab @ ''b'') \<noteq> None \<or>
      strstr bitrevLine ('' '' @ tab @ ''j'') \<noteq> None"
    by (simp add: bitrevLine_def clib parse)
  have h3: "strstr bitrevLine ('' '' @ tab @ ''jr'' @ tab @ ''ra'') = None"
    by (simp add: bitrevLine_def clib parse)
  have h4: "strstr bitrevLine ('' '' @ tab @ ''jalr'' @ tab) = None"
    by (simp add: bitrevLine_def clib parse)
  have h5: "strstr bitrevLine ('' '' @ tab @ ''jr'' @ tab) = None"
    by (simp add: bitrevLine_def clib parse)
  have h6: "length (jumpsTo openRecord) < jumpsToCapacity"
    by (simp add: openRecord_def jumpsToCapacity_def)
  from jump_branch_stores_strtoul_result [OF h1 h2 h3 h4 h5 h6]
  obtain p f1 where
    sel: "strrchr bitrevLine CHR '','' = Some p \<or>
          strrchr bitrevLine CHR '','' = None \<and> strrchr bitrevLine CHR 0x09 = Some p"
    and f1: "f1 = (if strtoul16 bitrevLine > endAddr openRecord
                   then openRecord\<lparr>endAddr := strtoul16 bitrevLine\<rparr> else openRecord)"
    and z: "\<not> hasDigit 16 (snd (skipSign (dropWhile isspace (tl p)))) \<longrightarrow>
              processInstruction bitrevLine openRecord = Inr (f1\<lparr>jumpsTo := jumpsTo openRecord @ [0]\<rparr>)"
    by blast
  have c: "strrchr bitrevLine CHR '','' = Some ('',v1'' @ nl)"
    by (simp add: bitrevLine_def clib)
  with sel have p: "p = '',v1'' @ nl" by simp
  have "\<not> hasDigit 16 (snd (skipSign (dropWhile isspace (tl p))))"
    by (simp add: p clib)
  with z have "processInstruction bitrevLine openRecord = Inr (f1\<lparr>jumpsTo := jumpsTo openRecord @ [0]\<rparr>)"
    by simp
  moreover have "f1 = openRecord\<lparr>endAddr := 0x9d000008\<rparr>"
    by (simp add: f1 bitrevLine_def openRecord_def clib)
  ultimately show ?thesis by (simp add: openRecord_def)
qed

text \<open>
  Claim C9.  A line that looks like a control transfer and has no target literal is not
  dropped.  \<open>bitrev v0,v1\<close> contains a blank, a tab and \<open>b\<close>; its last operand \<open>v1\<close> is
  no hexadecimal number, and the source records an edge to address 0.  For \<open>bitrev a0,a1\<close>
  it records an edge to \<open>0xa1\<close>.  The resolver later reports the edge to 0 as a jump
  target that was not found, for a function that jumps nowhere.
\<close>

theorem unparsable_target_records_edge:
  "processInstruction bitrevLine openRecord
     = Inr (openRecord\<lparr>endAddr := 0x9d000008, jumpsTo := [0]\<rparr>) \<and>
   processInstruction bitrevArgLine openRecord
     = Inr (openRecord\<lparr>endAddr := 0x9d000008, jumpsTo := [0xa1]\<rparr>) \<and>
   getDeepestStackUsage (Suc (Suc 0)) [openRecord\<lparr>endAddr := 0x9d000008, jumpsTo := [0]\<rparr>] [] 0
     = Some ([openRecord\<lparr>endAddr := 0x9d000008, jumpsTo := [0], deepest := 24,
                isProcessed := True\<rparr>], [(''main'', 0)], 24)"
  by (simp add: bitrevLine_def bitrevArgLine_def openRecord_def clib parse)

theorem unparsable_target_records_edge_witness:
  "jumpsTo openRecord = [] \<and>
   processInstruction bitrevLine openRecord
     = Inr (openRecord\<lparr>endAddr := 0x9d000008, jumpsTo := [0]\<rparr>)"
  using unparsable_target_records_edge by (simp add: openRecord_def)

end
